theory Spec2Isabelle
  imports Main "HOL-Library.Sublist" "HOL-Library.AList" "HOL-Library.Multiset"
begin

section \<open>Reference data of \<^verbatim>\<open>kabka.py\<close>\<close>

text \<open>
  Python strings are modelled as \<^typ>\<open>string\<close>; one \<^typ>\<open>char\<close> stands for one code
  point, so the model covers texts whose code points lie below 256. The dictionaries
  \<^verbatim>\<open>CODES\<close>, \<^verbatim>\<open>SITES\<close> and \<^verbatim>\<open>DEVICES\<close> keep their insertion order as association
  lists; \<^verbatim>\<open>FALLBACKS\<close> is a set.
\<close>

definition CODES :: "(string \<times> string) list" where
  "CODES =
    [(''oci'', ''Occitan''),
     (''kab'', ''Kabyle''),
     (''kam'', ''Kamba''),
     (''kac'', ''Kachin''),
     (''kal'', ''Greenlandic''),
     (''kar'', ''Karen''),
     (''kat'', ''Georgian''),
     (''kau'', ''Kanuri''),
     (''kaw'', ''Kawi''),
     (''kaz'', ''Kazakh'')]"

definition SITES :: "(string \<times> (string \<times> string)) list" where
  "SITES =
    [(''1'', (''DuckDuckGo'', ''https://duckduckgo.com/q=test '')),
     (''2'', (''Nextcloud'', ''https://demo2.nextcloud.com/index.php/login ''))]"

definition DEVICES :: "(string \<times> (string \<times> string)) list" where
  "DEVICES =
    [(''1'', (''desktop'', [])),
     (''2'', (''mobile'',
        ''Mozilla/5.0 (Android 13; Mobile; rv:109.0) Gecko/109.0 Firefox/119.0''))]"

definition FALLBACKS :: "string set" where
  "FALLBACKS = {''en''}"

section \<open>Exceptions and the external collaborators\<close>

text \<open>
  Every exception the program can meet is a subclass of \<^verbatim>\<open>Exception\<close>. The only
  distinction the code draws is \<^verbatim>\<open>except requests.RequestException\<close> in
  \<^verbatim>\<open>test_one\<close>, so an exception is either a \<^verbatim>\<open>RequestException\<close> or any other
  \<^verbatim>\<open>Exception\<close>; each carries the text \<^verbatim>\<open>str(e)\<close> gives.
\<close>

datatype exn = RequestException string | OtherException string

text \<open>
  The library \<^verbatim>\<open>langcodes\<close> is not part of the repository: \<^verbatim>\<open>Language.get\<close> and
  \<^verbatim>\<open>Language.is_valid\<close> are parameters, each either returning or raising.
\<close>

record 'l langcodes =
  Language_get :: "string \<Rightarrow> exn + 'l"
  is_valid :: "'l \<Rightarrow> exn + bool"

text \<open>
  A response of \<^verbatim>\<open>requests\<close>: the fields \<^verbatim>\<open>r.text\<close> and \<^verbatim>\<open>r.headers\<close> that the
  program reads.
\<close>

record response =
  resp_text :: string
  resp_headers :: "string \<rightharpoonup> string"

text \<open>
  \<^verbatim>\<open>sess.get(url, headers=headers, timeout=15)\<close> is a parameter as well: a function of
  the URL, the request headers and the timeout that returns a response or raises.
  Within one run every request differs from every other in its URL or its headers, so
  a function loses no generality over a sequence of outcomes.
\<close>

type_synonym http = "string \<Rightarrow> (string \<rightharpoonup> string) \<Rightarrow> nat \<Rightarrow> exn + response"

section \<open>\<^verbatim>\<open>_validated_lang\<close>\<close>

text \<open>
  The body of \<^verbatim>\<open>_validated_lang\<close>: both calls stand inside \<^verbatim>\<open>try\<close>, and
  \<^verbatim>\<open>except Exception\<close> turns every exception into \<^verbatim>\<open>None\<close>.
\<close>

definition validated_lang_body :: "'l langcodes \<Rightarrow> string \<Rightarrow> 'l option" where
  "validated_lang_body lc tag =
    (case Language_get lc tag of
       Inl e \<Rightarrow> None
     | Inr lang \<Rightarrow>
        (case is_valid lc lang of
           Inl e \<Rightarrow> None
         | Inr b \<Rightarrow> if b then Some lang else None))"

text \<open>
  \<^verbatim>\<open>@lru_cache(maxsize=None)\<close>: an unbounded cache keyed by the argument. The state
  also logs every tag for which the body ran, which is what a call counter on the
  oracle observes.
\<close>

record 'l memo =
  cache :: "string \<rightharpoonup> 'l option"
  calls :: "string list"

definition memo_empty :: "'l memo" where
  "memo_empty = \<lparr>cache = Map.empty, calls = []\<rparr>"

text \<open>
  The wrapper that \<^verbatim>\<open>lru_cache\<close> puts around the body looks the key up, returns the
  stored result on a hit, and on a miss runs the body, stores the result and returns
  it. \<open>validated_lang\<close> is one such call that no other call overlaps: lookup, body and
  store happen with nothing in between, as in a call from the main thread. Calls that
  overlap are modelled step by step further down.
\<close>

definition validated_lang :: "'l langcodes \<Rightarrow> string \<Rightarrow> 'l memo \<Rightarrow> 'l option \<times> 'l memo" where
  "validated_lang lc tag m =
    (case cache m tag of
       Some r \<Rightarrow> (r, m)
     | None \<Rightarrow>
        (let r = validated_lang_body lc tag
         in (r, \<lparr>cache = (cache m)(tag \<mapsto> r), calls = calls m @ [tag]\<rparr>)))"

text \<open>Validating a list of tags one after the other, collecting the answers.\<close>

fun validate_all :: "'l langcodes \<Rightarrow> string list \<Rightarrow> 'l memo \<Rightarrow> 'l option list \<times> 'l memo" where
  "validate_all lc [] m = ([], m)"
| "validate_all lc (t # ts) m =
    (case validated_lang lc t m of
       (r, m') \<Rightarrow> (case validate_all lc ts m' of (rs, m'') \<Rightarrow> (r # rs, m'')))"

text \<open>
  What every cache state of a run satisfies: a cached answer is the answer of the body,
  and the log holds exactly the cached tags, each once.
\<close>

definition memo_ok :: "'l langcodes \<Rightarrow> 'l memo \<Rightarrow> bool" where
  "memo_ok lc m \<longleftrightarrow>
     (\<forall>t r. cache m t = Some r \<longrightarrow> r = validated_lang_body lc t) \<and>
     dom (cache m) = set (calls m) \<and> distinct (calls m)"

text \<open>
  Calls that overlap. \<^verbatim>\<open>report_mode\<close> runs \<^verbatim>\<open>test_one\<close> in four pool threads, all
  of which call \<^verbatim>\<open>_validated_lang\<close> on the one cache, and the wrapper holds no lock
  while the body runs: another thread may run between the lookup and the body, and
  between the body and the store. A call in flight is at one of four points: before
  the lookup, after a lookup that missed, after the body with its result not yet
  stored, and returned with its result.
\<close>

datatype 'l call =
  Start string | Missed string | Computed string "'l option" | Finished string "'l option"

text \<open>
  One step of one call on the shared state: the lookup, the body (which the log of the
  oracle records), the store. A call that has returned stays as it is.
\<close>

definition call_step :: "'l langcodes \<Rightarrow> 'l call \<Rightarrow> 'l memo \<Rightarrow> 'l call \<times> 'l memo" where
  "call_step lc c m =
    (case c of
       Start tag \<Rightarrow>
         (case cache m tag of Some r \<Rightarrow> (Finished tag r, m) | None \<Rightarrow> (Missed tag, m))
     | Missed tag \<Rightarrow>
         (Computed tag (validated_lang_body lc tag), \<lparr>cache = cache m, calls = calls m @ [tag]\<rparr>)
     | Computed tag r \<Rightarrow> (Finished tag r, \<lparr>cache = (cache m)(tag \<mapsto> r), calls = calls m\<rparr>)
     | Finished tag r \<Rightarrow> (Finished tag r, m))"

text \<open>
  A run of several calls: \<open>cs\<close> holds the calls, and the schedule names, step by
  step, the call that moves next; a number that names no call is skipped. Several
  calls that one thread makes one after the other are several entries of \<open>cs\<close> that
  the schedule runs in that order.
\<close>

fun run_calls ::
  "'l langcodes \<Rightarrow> nat list \<Rightarrow> 'l call list \<times> 'l memo \<Rightarrow> 'l call list \<times> 'l memo" where
  "run_calls lc [] st = st"
| "run_calls lc (i # sched) (cs, m) =
    (if i < length cs
     then (case call_step lc (cs ! i) m of (c', m') \<Rightarrow> run_calls lc sched (cs[i := c'], m'))
     else run_calls lc sched (cs, m))"

text \<open>
  What holds of a call for \<open>tag\<close> at each of its points, and of the cache at every
  moment of a run: a result in hand or in the cache is the answer of the body.
\<close>

definition call_ok :: "'l langcodes \<Rightarrow> string \<Rightarrow> 'l call \<Rightarrow> bool" where
  "call_ok lc tag c \<longleftrightarrow>
    (case c of
       Start t \<Rightarrow> t = tag
     | Missed t \<Rightarrow> t = tag
     | Computed t r \<Rightarrow> t = tag \<and> r = validated_lang_body lc tag
     | Finished t r \<Rightarrow> t = tag \<and> r = validated_lang_body lc tag)"

definition cache_ok :: "'l langcodes \<Rightarrow> 'l memo \<Rightarrow> bool" where
  "cache_ok lc m \<longleftrightarrow> (\<forall>t. cache m t = None \<or> cache m t = Some (validated_lang_body lc t))"

text \<open>
  How far a call has got, and whether it may still run the body for the string \<open>t\<close>.
\<close>

fun stage :: "'l call \<Rightarrow> nat" where
  "stage (Start t) = 0"
| "stage (Missed t) = 1"
| "stage (Computed t r) = 2"
| "stage (Finished t r) = 3"

definition pending :: "string \<Rightarrow> 'l call \<Rightarrow> nat" where
  "pending t c = (if c = Start t \<or> c = Missed t then 1 else 0)"

section \<open>\<^verbatim>\<open>locale_used\<close>\<close>

text \<open>The character class \<^verbatim>\<open>[-a-zA-Z]\<close>.\<close>

definition tag_char :: "char \<Rightarrow> bool" where
  "tag_char c \<longleftrightarrow>
     c = CHR ''-'' \<or>
     (97 \<le> (of_char c :: nat) \<and> (of_char c :: nat) \<le> 122) \<or>
     (65 \<le> (of_char c :: nat) \<and> (of_char c :: nat) \<le> 90)"

text \<open>
  The class \<^verbatim>\<open>\w\<close> of a \<^verbatim>\<open>str\<close> pattern, which decides \<^verbatim>\<open>\b\<close>: the underscore and
  every code point that \<^verbatim>\<open>str.isalnum\<close> accepts. Below 256 these are the digits and
  letters of ASCII and, in Latin-1, the ordinal indicators, the superscript digits, the
  micro sign, the vulgar fractions and the letters.
\<close>

definition word_char :: "char \<Rightarrow> bool" where
  "word_char c \<longleftrightarrow>
     (let n = (of_char c :: nat) in
        (48 \<le> n \<and> n \<le> 57) \<or> (65 \<le> n \<and> n \<le> 90) \<or> n = 95 \<or> (97 \<le> n \<and> n \<le> 122) \<or>
        n = 170 \<or> n = 178 \<or> n = 179 \<or> n = 181 \<or> n = 185 \<or> n = 186 \<or>
        (188 \<le> n \<and> n \<le> 190) \<or> (192 \<le> n \<and> n \<le> 214) \<or> (216 \<le> n \<and> n \<le> 246) \<or>
        248 \<le> n)"

text \<open>
  \<^verbatim>\<open>\b\<close> between the character before the position (if any) and the text that
  follows: exactly one side is a word character.
\<close>

definition word_boundary :: "char option \<Rightarrow> string \<Rightarrow> bool" where
  "word_boundary prev s \<longleftrightarrow>
     (case prev of None \<Rightarrow> False | Some p \<Rightarrow> word_char p) \<noteq>
     (case s of [] \<Rightarrow> False | c # _ \<Rightarrow> word_char c)"

text \<open>
  \<^verbatim>\<open>([-a-zA-Z]+)\<close> at the end of a pattern: the greedy run of tag characters, which
  must not be empty. Nothing follows the group, so the longest run is the match.
\<close>

definition match_tag :: "string \<Rightarrow> string option" where
  "match_tag s = (let t = takeWhile tag_char s in if t = [] then None else Some t)"

text \<open>The tail \<^verbatim>\<open>\blang=["\']([-a-zA-Z]+)\<close> of the body pattern at one position.\<close>

definition match_lang :: "char option \<Rightarrow> string \<Rightarrow> string option" where
  "match_lang prev s =
    (if word_boundary prev s \<and> take 5 s = ''lang=''
     then (case drop 5 s of
             [] \<Rightarrow> None
           | q # r \<Rightarrow> if q = CHR 0x22 \<or> q = CHR 0x27 then match_tag r else None)
     else None)"

text \<open>
  \<^verbatim>\<open>[^>]*\<close> followed by the tail, with the backtracking of the \<^verbatim>\<open>re\<close> engine: the
  star is greedy, so the engine first consumes a character other than \<^verbatim>\<open>>\<close> and tries
  the rest; only when that fails does it try the tail at the current position.
\<close>

fun match_star_lang :: "char option \<Rightarrow> string \<Rightarrow> string option" where
  "match_star_lang prev [] = match_lang prev []"
| "match_star_lang prev (c # cs) =
    (if c \<noteq> CHR ''>''
     then (case match_star_lang (Some c) cs of
             Some t \<Rightarrow> Some t
           | None \<Rightarrow> match_lang prev (c # cs))
     else match_lang prev (c # cs))"

text \<open>The whole body pattern \<^verbatim>\<open><html[^>]*\blang=["\']([-a-zA-Z]+)\<close> at one position.\<close>

definition match_html :: "string \<Rightarrow> string option" where
  "match_html s =
    (if take 5 s = ''<html'' then match_star_lang (Some CHR ''l'') (drop 5 s) else None)"

text \<open>
  \<^verbatim>\<open>re.search\<close>: the start positions from left to right, the first position where
  the pattern matches wins; the value is group 1.
\<close>

fun search_html :: "string \<Rightarrow> string option" where
  "search_html [] = match_html []"
| "search_html (c # cs) =
    (case match_html (c # cs) of Some t \<Rightarrow> Some t | None \<Rightarrow> search_html cs)"

text \<open>The cookie pattern \<^verbatim>\<open>ae=l=([-a-zA-Z]+)\<close> at one position, and its search.\<close>

definition match_cookie :: "string \<Rightarrow> string option" where
  "match_cookie s = (if take 5 s = ''ae=l='' then match_tag (drop 5 s) else None)"

fun search_cookie :: "string \<Rightarrow> string option" where
  "search_cookie [] = match_cookie []"
| "search_cookie (c # cs) =
    (case match_cookie (c # cs) of Some t \<Rightarrow> Some t | None \<Rightarrow> search_cookie cs)"

definition locale_used :: "string \<Rightarrow> string \<Rightarrow> string option" where
  "locale_used html cookie =
    (case search_html html of
       Some t \<Rightarrow> Some t
     | None \<Rightarrow>
        (case search_cookie (if cookie \<noteq> [] then cookie else []) of
           Some t \<Rightarrow> Some t
         | None \<Rightarrow> None))"

section \<open>What the two patterns match, stated on the text\<close>

text \<open>
  The text \<open>s\<close> begins with the tag \<open>t\<close>: a non-empty run of tag characters that
  is not followed by another tag character.
\<close>

definition tag_run :: "string \<Rightarrow> string \<Rightarrow> bool" where
  "tag_run t s \<longleftrightarrow>
     (\<exists>rest. s = t @ rest \<and> t \<noteq> [] \<and> list_all tag_char t \<and> (rest = [] \<or> \<not> tag_char (hd rest)))"

text \<open>
  After the prefix \<open>pre\<close>, the text \<open>s\<close> has the characters \<^verbatim>\<open><html\<close>, then the
  characters \<open>mid\<close>, at least one, none of them \<^verbatim>\<open>>\<close> and the last of them not a
  word character, then \<^verbatim>\<open>lang=\<close>, a single or double quote and the tag \<open>t\<close>.
\<close>

definition html_marker_at :: "string \<Rightarrow> string \<Rightarrow> string \<Rightarrow> string \<Rightarrow> bool" where
  "html_marker_at s pre mid t \<longleftrightarrow>
     (\<exists>q after. s = pre @ ''<html'' @ mid @ ''lang='' @ q # after \<and>
        CHR ''>'' \<notin> set mid \<and> mid \<noteq> [] \<and> \<not> word_char (last mid) \<and>
        (q = CHR 0x22 \<or> q = CHR 0x27) \<and> tag_run t after)"

text \<open>
  The marker of the body that the search selects: of all markers, one after the
  leftmost \<^verbatim>\<open><html\<close> that has a marker at all, and of the markers after that
  \<^verbatim>\<open><html\<close> the rightmost.
\<close>

definition html_selected :: "string \<Rightarrow> string \<Rightarrow> bool" where
  "html_selected s t \<longleftrightarrow>
     (\<exists>pre mid. html_marker_at s pre mid t \<and>
        (\<forall>pre' mid' t'. html_marker_at s pre' mid' t' \<longrightarrow>
           length pre \<le> length pre' \<and> (length pre' = length pre \<longrightarrow> length mid' \<le> length mid)))"

text \<open>After the prefix \<open>pre\<close>, the text \<open>s\<close> has \<^verbatim>\<open>ae=l=\<close> and the tag \<open>t\<close>.\<close>

definition cookie_marker_at :: "string \<Rightarrow> string \<Rightarrow> string \<Rightarrow> bool" where
  "cookie_marker_at s pre t \<longleftrightarrow> (\<exists>after. s = pre @ ''ae=l='' @ after \<and> tag_run t after)"

text \<open>The marker of the cookie text that the search selects: the leftmost.\<close>

definition cookie_selected :: "string \<Rightarrow> string \<Rightarrow> bool" where
  "cookie_selected s t \<longleftrightarrow>
     (\<exists>pre. cookie_marker_at s pre t \<and>
        (\<forall>pre' t'. cookie_marker_at s pre' t' \<longrightarrow> length pre \<le> length pre'))"

text \<open>
  The scheme of both searches, for the proofs: the first position, from the left, at
  which a matcher succeeds.
\<close>

fun first_match :: "(string \<Rightarrow> 'a option) \<Rightarrow> string \<Rightarrow> 'a option" where
  "first_match f [] = f []"
| "first_match f (c # cs) = (case f (c # cs) of Some t \<Rightarrow> Some t | None \<Rightarrow> first_match f cs)"

section \<open>The body rule as the specification words it\<close>

text \<open>
  Follows the spec's words: "a plain text search" for a marker \<^verbatim>\<open>lang="<tag>"\<close> or
  \<^verbatim>\<open>lang='<tag>'\<close> "found anywhere in the body", the first one winning. The marker is
  read as the code reads it (the quote after the tag is not examined), so that the
  only difference to \<^const>\<open>search_html\<close> is where the marker may stand.
\<close>

definition spec_match_lang :: "string \<Rightarrow> string option" where
  "spec_match_lang s =
    (if take 5 s = ''lang=''
     then (case drop 5 s of
             [] \<Rightarrow> None
           | q # r \<Rightarrow> if q = CHR 0x22 \<or> q = CHR 0x27 then match_tag r else None)
     else None)"

fun spec_search_lang :: "string \<Rightarrow> string option" where
  "spec_search_lang [] = spec_match_lang []"
| "spec_search_lang (c # cs) =
    (case spec_match_lang (c # cs) of Some t \<Rightarrow> Some t | None \<Rightarrow> spec_search_lang cs)"

section \<open>\<^verbatim>\<open>test_one\<close>\<close>

text \<open>
  The request headers: \<^verbatim>\<open>Accept-Language\<close> always, \<^verbatim>\<open>User-Agent\<close> only for a
  non-empty \<^verbatim>\<open>ua\<close>.
\<close>

definition request_headers :: "string \<Rightarrow> string \<Rightarrow> (string \<rightharpoonup> string)" where
  "request_headers code ua =
    (let headers = [''Accept-Language'' \<mapsto> code]
     in if ua \<noteq> [] then headers(''User-Agent'' \<mapsto> ua) else headers)"

text \<open>\<^verbatim>\<open>r.headers.get("Set-Cookie", "")\<close>.\<close>

definition set_cookie :: "response \<Rightarrow> string" where
  "set_cookie r = (case resp_headers r ''Set-Cookie'' of None \<Rightarrow> [] | Some v \<Rightarrow> v)"

text \<open>
  \<^verbatim>\<open>{got!r}\<close>: the \<^verbatim>\<open>repr\<close> of a string without quotes, backslashes or control
  characters is the string between single quotes. Every tag \<^verbatim>\<open>locale_used\<close> returns is
  such a string.
\<close>

definition repr_tag :: "string \<Rightarrow> string" where
  "repr_tag got = [CHR 0x27] @ got @ [CHR 0x27]"

text \<open>
  The part of the loop body of \<^verbatim>\<open>test_one\<close> that follows the call of
  \<^verbatim>\<open>locale_used\<close>. Each of its branches stores one pair in \<^verbatim>\<open>results[code]\<close> and
  goes on to the next code; the function returns that pair. \<^verbatim>\<open>not got\<close> holds for
  \<^verbatim>\<open>None\<close> and for the empty string. The call of \<^verbatim>\<open>_validated_lang\<close> is made
  through the cache, which returns what the body returns, for a call on its own (lemma
  \<open>validated_lang_transparent\<close> below) and for calls that overlap in the pool
  threads (lemma \<open>run_calls_results\<close> below), so the verdict is written with the
  body.
\<close>

definition classify :: "'l langcodes \<Rightarrow> bool \<Rightarrow> string \<Rightarrow> string option \<Rightarrow> string \<times> string" where
  "classify lc loose code maybe_got =
    (case maybe_got of
       None \<Rightarrow> (''unk'', ''no locale hint'')
     | Some got \<Rightarrow>
        if got = [] then (''unk'', ''no locale hint'')
        else if validated_lang_body lc got = None
          then (''unk'', ''invalid locale '' @ repr_tag got)
        else if code = ''oci'' \<and> got = ''oc'' then (''alt'', got)
        else if code = ''kab'' \<and> prefix ''kab'' got then (''alt'', got)
        else if (code = ''oci'' \<or> code = ''kab'') \<and> (\<exists>f\<in>FALLBACKS. prefix f got)
          then (''fallback'', got)
        else if loose then (if prefix code got then ''ok'' else ''collision'', got)
        else (if got = code then ''ok'' else ''collision'', got))"

text \<open>
  One pass through the loop body of \<^verbatim>\<open>test_one\<close> for one code: the pair it stores
  in \<^verbatim>\<open>results[code]\<close>, or the exception that leaves the function. A
  \<^verbatim>\<open>RequestException\<close> of \<^verbatim>\<open>sess.get\<close> is caught and recorded with \<^verbatim>\<open>str(e)\<close>; no
  handler stands for any other exception.
\<close>

definition test_code ::
  "'l langcodes \<Rightarrow> http \<Rightarrow> string \<Rightarrow> string \<Rightarrow> bool \<Rightarrow> string \<Rightarrow> exn + (string \<times> string)" where
  "test_code lc sess url ua loose code =
    (case sess url (request_headers code ua) 15 of
       Inl (RequestException e) \<Rightarrow> Inr (''error'', e)
     | Inl (OtherException e) \<Rightarrow> Inl (OtherException e)
     | Inr r \<Rightarrow> Inr (classify lc loose code (locale_used (resp_text r) (set_cookie r))))"

text \<open>
  The loop \<^verbatim>\<open>for code, name in CODES.items()\<close> over the remaining items, with the
  dictionary \<^verbatim>\<open>results\<close> built so far.
\<close>

fun test_loop ::
  "'l langcodes \<Rightarrow> http \<Rightarrow> string \<Rightarrow> string \<Rightarrow> bool \<Rightarrow> (string \<times> string) list \<Rightarrow>
   (string \<rightharpoonup> string \<times> string) \<Rightarrow> exn + (string \<rightharpoonup> string \<times> string)" where
  "test_loop lc sess url ua loose [] results = Inr results"
| "test_loop lc sess url ua loose ((code, name) # items) results =
    (case test_code lc sess url ua loose code of
       Inl e \<Rightarrow> Inl e
     | Inr v \<Rightarrow> test_loop lc sess url ua loose items (results(code \<mapsto> v)))"

definition test_one ::
  "'l langcodes \<Rightarrow> http \<Rightarrow> string \<Rightarrow> string \<Rightarrow> bool \<Rightarrow> exn + (string \<rightharpoonup> string \<times> string)" where
  "test_one lc sess url ua loose = test_loop lc sess url ua loose CODES Map.empty"

section \<open>\<^verbatim>\<open>_job\<close> and \<^verbatim>\<open>report_mode\<close>\<close>

text \<open>A dictionary lookup \<^verbatim>\<open>d[k]\<close> raises \<^verbatim>\<open>KeyError\<close> for a missing key.\<close>

definition key_error :: "string \<Rightarrow> exn" where
  "key_error k = OtherException (repr_tag k)"

type_synonym job_result =
  "string \<times> string \<times> string \<times> string \<times> (string \<rightharpoonup> string \<times> string)"

definition job :: "'l langcodes \<Rightarrow> http \<Rightarrow> string \<Rightarrow> string \<Rightarrow> bool \<Rightarrow> exn + job_result" where
  "job lc sess sk dk loose =
    (case map_of SITES sk of
       None \<Rightarrow> Inl (key_error sk)
     | Some (site_n, site_u) \<Rightarrow>
        (case map_of DEVICES dk of
           None \<Rightarrow> Inl (key_error dk)
         | Some (dev_n, ua) \<Rightarrow>
            (case test_one lc sess site_u ua loose of
               Inl e \<Rightarrow> Inl e
             | Inr res \<Rightarrow> Inr (sk, dk, site_n, dev_n, res))))"

definition combos :: "(string \<times> string) list" where
  "combos = [(''1'', ''1''), (''1'', ''2''), (''2'', ''1''), (''2'', ''2'')]"

text \<open>
  The report is a dictionary in insertion order: an association list, where an
  assignment to a key that is present replaces its value in place and a new key goes to
  the end (\<^const>\<open>AList.update\<close>).
\<close>

type_synonym report = "((string \<times> string \<times> string) \<times> (string \<times> string)) list"

text \<open>The inner loop \<^verbatim>\<open>for code in ("oci", "kab")\<close> for one finished job.\<close>

fun add_codes ::
  "string \<Rightarrow> string \<Rightarrow> (string \<rightharpoonup> string \<times> string) \<Rightarrow> string list \<Rightarrow> report \<Rightarrow> exn + report" where
  "add_codes site_n dev_n res [] report = Inr report"
| "add_codes site_n dev_n res (code # codes) report =
    (case res code of
       None \<Rightarrow> Inl (key_error code)
     | Some v \<Rightarrow> add_codes site_n dev_n res codes (AList.update (site_n, dev_n, code) v report))"

text \<open>
  The loop \<^verbatim>\<open>for fut in as_completed(futures)\<close> over the outcomes of the jobs in the
  order in which \<^verbatim>\<open>as_completed\<close> yields them. \<^verbatim>\<open>fut.result()\<close> returns what the job returned or
  raises what the job raised; nothing in \<^verbatim>\<open>report_mode\<close> catches it.
\<close>

fun collect :: "(exn + job_result) list \<Rightarrow> report \<Rightarrow> exn + report" where
  "collect [] report = Inr report"
| "collect (fut # futs) report =
    (case fut of
       Inl e \<Rightarrow> Inl e
     | Inr (sk, dk, site_n, dev_n, res) \<Rightarrow>
        (case add_codes site_n dev_n res [''oci'', ''kab''] report of
           Inl e \<Rightarrow> Inl e
         | Inr report' \<Rightarrow> collect futs report'))"

text \<open>The list comprehension that derives the collisions from the report.\<close>

definition collisions :: "report \<Rightarrow> (string \<times> string \<times> string) list" where
  "collisions report = map fst (filter (\<lambda>(k, (l, g)). l = ''collision'') report)"

text \<open>
  \<^verbatim>\<open>report_mode\<close>. Each future is the outcome of one job. \<open>order\<close> lists the
  combinations in the order in which \<^verbatim>\<open>as_completed\<close> yields their futures, a
  permutation of \<^const>\<open>combos\<close>: the pool and the scheduler decide it, and it need
  be neither the order of submission nor the order in which the jobs ended (futures
  that are done when the loop starts are yielded in the order of a set). The function
  prints the report and the collisions; the model returns both, or the exception that
  left the function.
\<close>

definition report_mode ::
  "'l langcodes \<Rightarrow> http \<Rightarrow> bool \<Rightarrow> (string \<times> string) list \<Rightarrow>
   exn + (report \<times> (string \<times> string \<times> string) list)" where
  "report_mode lc sess loose order =
    (case collect (map (\<lambda>(sk, dk). job lc sess sk dk loose) order) [] of
       Inl e \<Rightarrow> Inl e
     | Inr report \<Rightarrow> Inr (report, collisions report))"

text \<open>
  For the statements about the report: the names under which a finished job files its
  entries, the names a combination stands for in \<^const>\<open>SITES\<close> and \<^const>\<open>DEVICES\<close>,
  the two keys of a target, and the entries a finished job contributes.
\<close>

definition job_name :: "job_result \<Rightarrow> string \<times> string" where
  "job_name jr = (case jr of (sk, dk, site_n, dev_n, res) \<Rightarrow> (site_n, dev_n))"

definition combo_name :: "string \<times> string \<Rightarrow> string \<times> string" where
  "combo_name c =
    (case c of (sk, dk) \<Rightarrow>
      (case (map_of SITES sk, map_of DEVICES dk) of
         (Some (site_n, site_u), Some (dev_n, ua)) \<Rightarrow> (site_n, dev_n)
       | _ \<Rightarrow> ([], [])))"

definition target_keys :: "string \<times> string \<Rightarrow> (string \<times> string \<times> string) list" where
  "target_keys n = (case n of (site_n, dev_n) \<Rightarrow> [(site_n, dev_n, ''oci''), (site_n, dev_n, ''kab'')])"

definition job_entries :: "job_result \<Rightarrow> report" where
  "job_entries jr =
    (case jr of (sk, dk, site_n, dev_n, res) \<Rightarrow>
       concat (map (\<lambda>code. case res code of None \<Rightarrow> [] | Some v \<Rightarrow> [((site_n, dev_n, code), v)])
         [''oci'', ''kab'']))"

section \<open>Concrete inputs\<close>

text \<open>
  A tag oracle and a server for the examples. The oracle accepts seven tags, rejects
  the others, and raises on \<open>zz\<close> (in \<^verbatim>\<open>Language.get\<close>) and on \<open>qq\<close> (in
  \<^verbatim>\<open>is_valid\<close>). At the DuckDuckGo URL of \<^const>\<open>SITES\<close> the server answers by
  the requested code: a page whose root element carries a tag, a page without any
  hint, a cookie, or a transport failure. At a second URL it serves English to
  everyone, at a third a variant of Kabyle, and at the Nextcloud URL of
  \<^const>\<open>SITES\<close> the transport raises an exception that is not a
  \<^verbatim>\<open>RequestException\<close>. The second server differs from the first at the
  Nextcloud URL only, where it serves the variant of Kabyle.
\<close>

definition demo_lc :: "string langcodes" where
  "demo_lc =
    \<lparr>Language_get =
       (\<lambda>t. if t = ''zz'' then Inl (OtherException ''LanguageTagError'') else Inr t),
     is_valid =
       (\<lambda>l. if l = ''qq'' then Inl (OtherException ''LookupError'')
            else Inr (l \<in> {''oc'', ''kab'', ''kab-Latn'', ''kac'', ''kat-GE'', ''en-US'', ''de''}))\<rparr>"

definition demo_page :: "string \<Rightarrow> response" where
  "demo_page tag =
    \<lparr>resp_text = ''<html lang=\"'' @ tag @ ''\">'', resp_headers = Map.empty\<rparr>"

definition demo_sess :: http where
  "demo_sess url hdrs timeout =
    (if url = ''https://demo2.nextcloud.com/index.php/login ''
       then Inl (OtherException ''boom'')
     else if url = ''https://english.example/'' then Inr (demo_page ''en-US'')
     else if url = ''https://variant.example/'' then Inr (demo_page ''kab-Latn'')
     else if hdrs ''Accept-Language'' = Some ''oci'' then Inr (demo_page ''oc'')
     else if hdrs ''Accept-Language'' = Some ''kab'' then Inr (demo_page ''kab'')
     else if hdrs ''Accept-Language'' = Some ''kam''
       then Inl (RequestException ''Connection refused'')
     else if hdrs ''Accept-Language'' = Some ''kac''
       then Inr \<lparr>resp_text = ''<p>hello</p>'',
                 resp_headers = [''Set-Cookie'' \<mapsto> ''p=1; ae=l=kac; Path=/'']\<rparr>
     else if hdrs ''Accept-Language'' = Some ''kal''
       then Inr \<lparr>resp_text = ''<p>hello</p>'', resp_headers = Map.empty\<rparr>
     else if hdrs ''Accept-Language'' = Some ''kar'' then Inr (demo_page ''zz'')
     else if hdrs ''Accept-Language'' = Some ''kat'' then Inr (demo_page ''kat-GE'')
     else Inr (demo_page ''de''))"

definition calm_sess :: http where
  "calm_sess url hdrs timeout =
    (if url = ''https://demo2.nextcloud.com/index.php/login ''
       then Inr (demo_page ''kab-Latn'')
     else demo_sess url hdrs timeout)"

text \<open>
  Two orders in which the futures may be yielded, and the report of the second server
  for the first.
\<close>

definition batch_order :: "(string \<times> string) list" where
  "batch_order = [(''2'', ''1''), (''1'', ''2''), (''2'', ''2''), (''1'', ''1'')]"

definition crash_order :: "(string \<times> string) list" where
  "crash_order = [(''1'', ''2''), (''2'', ''2''), (''1'', ''1''), (''2'', ''1'')]"

definition batch_report :: report where
  "batch_report =
    [((''Nextcloud'', ''desktop'', ''oci''), (''collision'', ''kab-Latn'')),
     ((''Nextcloud'', ''desktop'', ''kab''), (''alt'', ''kab-Latn'')),
     ((''DuckDuckGo'', ''mobile'', ''oci''), (''alt'', ''oc'')),
     ((''DuckDuckGo'', ''mobile'', ''kab''), (''alt'', ''kab'')),
     ((''Nextcloud'', ''mobile'', ''oci''), (''collision'', ''kab-Latn'')),
     ((''Nextcloud'', ''mobile'', ''kab''), (''alt'', ''kab-Latn'')),
     ((''DuckDuckGo'', ''desktop'', ''oci''), (''alt'', ''oc'')),
     ((''DuckDuckGo'', ''desktop'', ''kab''), (''alt'', ''kab''))]"


definition demo_url :: string where
  "demo_url = ''https://duckduckgo.com/q=test ''"

definition demo_results :: "bool \<Rightarrow> (string \<rightharpoonup> string \<times> string)" where
  "demo_results loose =
    [''oci'' \<mapsto> (''alt'', ''oc''),
     ''kab'' \<mapsto> (''alt'', ''kab''),
     ''kam'' \<mapsto> (''error'', ''Connection refused''),
     ''kac'' \<mapsto> (''ok'', ''kac''),
     ''kal'' \<mapsto> (''unk'', ''no locale hint''),
     ''kar'' \<mapsto> (''unk'', ''invalid locale '' @ [CHR 0x27] @ ''zz'' @ [CHR 0x27]),
     ''kat'' \<mapsto> (if loose then ''ok'' else ''collision'', ''kat-GE''),
     ''kau'' \<mapsto> (''collision'', ''de''),
     ''kaw'' \<mapsto> (''collision'', ''de''),
     ''kaz'' \<mapsto> (''collision'', ''de'')]"

definition variant_results :: "string \<rightharpoonup> string \<times> string" where
  "variant_results =
    [''oci'' \<mapsto> (''collision'', ''kab-Latn''),
     ''kab'' \<mapsto> (''alt'', ''kab-Latn''),
     ''kam'' \<mapsto> (''collision'', ''kab-Latn''),
     ''kac'' \<mapsto> (''collision'', ''kab-Latn''),
     ''kal'' \<mapsto> (''collision'', ''kab-Latn''),
     ''kar'' \<mapsto> (''collision'', ''kab-Latn''),
     ''kat'' \<mapsto> (''collision'', ''kab-Latn''),
     ''kau'' \<mapsto> (''collision'', ''kab-Latn''),
     ''kaw'' \<mapsto> (''collision'', ''kab-Latn''),
     ''kaz'' \<mapsto> (''collision'', ''kab-Latn'')]"

definition english_results :: "string \<rightharpoonup> string \<times> string" where
  "english_results =
    [''oci'' \<mapsto> (''fallback'', ''en-US''),
     ''kab'' \<mapsto> (''fallback'', ''en-US''),
     ''kam'' \<mapsto> (''collision'', ''en-US''),
     ''kac'' \<mapsto> (''collision'', ''en-US''),
     ''kal'' \<mapsto> (''collision'', ''en-US''),
     ''kar'' \<mapsto> (''collision'', ''en-US''),
     ''kat'' \<mapsto> (''collision'', ''en-US''),
     ''kau'' \<mapsto> (''collision'', ''en-US''),
     ''kaw'' \<mapsto> (''collision'', ''en-US''),
     ''kaz'' \<mapsto> (''collision'', ''en-US'')]"

section \<open>Every tag \<^verbatim>\<open>locale_used\<close> returns is non-empty\<close>

lemma match_tag_Some: "match_tag s = Some t \<Longrightarrow> t \<noteq> [] \<and> t = takeWhile tag_char s"
  by (auto simp: match_tag_def Let_def split: if_splits)

lemma match_lang_nonempty: "match_lang prev s = Some t \<Longrightarrow> t \<noteq> []"
  by (auto simp: match_lang_def dest: match_tag_Some split: if_splits list.splits)

lemma match_star_lang_nonempty: "match_star_lang prev s = Some t \<Longrightarrow> t \<noteq> []"
  by (induction prev s rule: match_star_lang.induct)
     (auto dest: match_lang_nonempty split: if_splits option.splits)

lemma match_html_nonempty: "match_html s = Some t \<Longrightarrow> t \<noteq> []"
  by (auto simp: match_html_def dest: match_star_lang_nonempty split: if_splits)

lemma search_html_nonempty: "search_html s = Some t \<Longrightarrow> t \<noteq> []"
  by (induction s) (auto dest: match_html_nonempty split: option.splits)

lemma match_cookie_nonempty: "match_cookie s = Some t \<Longrightarrow> t \<noteq> []"
  by (auto simp: match_cookie_def dest: match_tag_Some split: if_splits)

lemma search_cookie_nonempty: "search_cookie s = Some t \<Longrightarrow> t \<noteq> []"
  by (induction s) (auto dest: match_cookie_nonempty split: option.splits)

lemma locale_used_nonempty: "locale_used html cookie = Some t \<Longrightarrow> t \<noteq> []"
  by (auto simp: locale_used_def dest: search_html_nonempty search_cookie_nonempty
      split: option.splits)

section \<open>The loop of \<^verbatim>\<open>test_one\<close>\<close>

lemma test_loop_lookup:
  "test_loop lc sess url ua loose items results0 = Inr results \<Longrightarrow> distinct (map fst items) \<Longrightarrow>
   results code =
     (if code \<in> fst ` set items
      then (case test_code lc sess url ua loose code of Inl e \<Rightarrow> None | Inr v \<Rightarrow> Some v)
      else results0 code)"
proof (induction items arbitrary: results0)
  case Nil
  then show ?case by simp
next
  case (Cons item items)
  obtain c n where item: "item = (c, n)" by (cases item)
  from Cons.prems(1) item obtain v where
    v: "test_code lc sess url ua loose c = Inr v" and
    rest: "test_loop lc sess url ua loose items (results0(c \<mapsto> v)) = Inr results"
    by (auto split: sum.splits)
  from Cons.prems(2) item have d: "distinct (map fst items)" and notin: "c \<notin> fst ` set items"
    by auto
  from Cons.IH [OF rest d] v notin item show ?case by auto
qed

lemma test_loop_total:
  "(\<And>code. code \<in> fst ` set items \<Longrightarrow> \<exists>v. test_code lc sess url ua loose code = Inr v) \<Longrightarrow>
   \<exists>results. test_loop lc sess url ua loose items results0 = Inr results"
proof (induction items arbitrary: results0)
  case Nil
  then show ?case by simp
next
  case (Cons item items)
  obtain c n where item: "item = (c, n)" by (cases item)
  from Cons.prems [of c] item obtain v where v: "test_code lc sess url ua loose c = Inr v"
    by auto
  have "\<exists>results. test_loop lc sess url ua loose items (results0(c \<mapsto> v)) = Inr results"
    by (rule Cons.IH) (use Cons.prems in auto)
  with v item show ?case by simp
qed

lemma distinct_CODES: "distinct (map fst CODES)"
  by (simp add: CODES_def)

lemma test_loop_Inr:
  "test_loop lc sess url ua loose items results0 = Inr results \<Longrightarrow> code \<in> fst ` set items \<Longrightarrow>
   \<exists>v. test_code lc sess url ua loose code = Inr v"
proof (induction items arbitrary: results0)
  case Nil
  then show ?case by simp
next
  case (Cons item items)
  obtain c n where item: "item = (c, n)" by (cases item)
  from Cons.prems(1) item obtain v where
    v: "test_code lc sess url ua loose c = Inr v" and
    rest: "test_loop lc sess url ua loose items (results0(c \<mapsto> v)) = Inr results"
    by (auto split: sum.splits)
  show ?case
  proof (cases "code = c")
    case True
    with v show ?thesis by simp
  next
    case False
    with Cons.prems(2) item have "code \<in> fst ` set items" by auto
    from Cons.IH [OF rest this] show ?thesis .
  qed
qed

lemma test_one_lookup:
  assumes "test_one lc sess url ua loose = Inr results" and "code \<in> fst ` set CODES"
  shows "\<exists>v. test_code lc sess url ua loose code = Inr v \<and> results code = Some v"
proof -
  from assms(1) have loop: "test_loop lc sess url ua loose CODES Map.empty = Inr results"
    by (simp add: test_one_def)
  from test_loop_Inr [OF loop assms(2)] obtain v where
    v: "test_code lc sess url ua loose code = Inr v" by blast
  from test_loop_lookup [OF loop distinct_CODES, of code] assms(2) v
  have "results code = Some v" by simp
  with v show ?thesis by blast
qed

lemma test_one_dom:
  assumes "test_one lc sess url ua loose = Inr results"
  shows "dom results = fst ` set CODES"
proof -
  from assms(1) have loop: "test_loop lc sess url ua loose CODES Map.empty = Inr results"
    by (simp add: test_one_def)
  show ?thesis
  proof (rule set_eqI)
    fix code
    show "code \<in> dom results \<longleftrightarrow> code \<in> fst ` set CODES"
    proof (cases "code \<in> fst ` set CODES")
      case True
      with test_one_lookup [OF assms this] show ?thesis by auto
    next
      case False
      with test_loop_lookup [OF loop distinct_CODES, of code] show ?thesis by auto
    qed
  qed
qed


section \<open>The concrete inputs, evaluated\<close>

lemma demo_locale_page:
  "locale_used (resp_text (demo_page ''oc'')) (set_cookie (demo_page ''oc'')) = Some ''oc''"
  "locale_used (resp_text (demo_page ''kab'')) (set_cookie (demo_page ''kab'')) = Some ''kab''"
  "locale_used (resp_text (demo_page ''zz'')) (set_cookie (demo_page ''zz'')) = Some ''zz''"
  "locale_used (resp_text (demo_page ''kat-GE'')) (set_cookie (demo_page ''kat-GE'')) = Some ''kat-GE''"
  "locale_used (resp_text (demo_page ''de'')) (set_cookie (demo_page ''de'')) = Some ''de''"
  "locale_used (resp_text (demo_page ''en-US'')) (set_cookie (demo_page ''en-US'')) = Some ''en-US''"
  "locale_used (resp_text (demo_page ''kab-Latn'')) (set_cookie (demo_page ''kab-Latn'')) =
     Some ''kab-Latn''"
  by (simp_all add: demo_page_def set_cookie_def locale_used_def match_html_def match_cookie_def
      match_lang_def match_tag_def word_boundary_def word_char_def tag_char_def)

lemma demo_locale_cookie:
  "locale_used ''<p>hello</p>'' ''p=1; ae=l=kac; Path=/'' = Some ''kac''"
  "locale_used ''<p>hello</p>'' [] = None"
  by (simp_all add: locale_used_def match_html_def match_cookie_def
      match_lang_def match_tag_def word_boundary_def word_char_def tag_char_def)

lemma demo_valid:
  "validated_lang_body demo_lc ''oc'' = Some ''oc''"
  "validated_lang_body demo_lc ''kab'' = Some ''kab''"
  "validated_lang_body demo_lc ''kac'' = Some ''kac''"
  "validated_lang_body demo_lc ''kat-GE'' = Some ''kat-GE''"
  "validated_lang_body demo_lc ''de'' = Some ''de''"
  "validated_lang_body demo_lc ''en-US'' = Some ''en-US''"
  "validated_lang_body demo_lc ''zz'' = None"
  "validated_lang_body demo_lc ''qq'' = None"
  "validated_lang_body demo_lc ''kab-Latn'' = Some ''kab-Latn''"
  by (simp_all add: validated_lang_body_def demo_lc_def)


lemma demo_hdr: "request_headers code ua ''Accept-Language'' = Some code"
  by (cases "ua = []") (simp_all add: request_headers_def Let_def)

lemma demo_sess_code:
  "demo_sess demo_url (request_headers ''oci'' ua) 15 = Inr (demo_page ''oc'')"
  "demo_sess demo_url (request_headers ''kab'' ua) 15 = Inr (demo_page ''kab'')"
  "demo_sess demo_url (request_headers ''kam'' ua) 15 = Inl (RequestException ''Connection refused'')"
  "demo_sess demo_url (request_headers ''kac'' ua) 15 =
     Inr \<lparr>resp_text = ''<p>hello</p>'',
          resp_headers = [''Set-Cookie'' \<mapsto> ''p=1; ae=l=kac; Path=/'']\<rparr>"
  "demo_sess demo_url (request_headers ''kal'' ua) 15 =
     Inr \<lparr>resp_text = ''<p>hello</p>'', resp_headers = Map.empty\<rparr>"
  "demo_sess demo_url (request_headers ''kar'' ua) 15 = Inr (demo_page ''zz'')"
  "demo_sess demo_url (request_headers ''kat'' ua) 15 = Inr (demo_page ''kat-GE'')"
  "demo_sess demo_url (request_headers ''kau'' ua) 15 = Inr (demo_page ''de'')"
  "demo_sess demo_url (request_headers ''kaw'' ua) 15 = Inr (demo_page ''de'')"
  "demo_sess demo_url (request_headers ''kaz'' ua) 15 = Inr (demo_page ''de'')"
  by (simp_all add: demo_sess_def demo_url_def demo_hdr)

lemma demo_locale_resp:
  "locale_used (resp_text \<lparr>resp_text = ''<p>hello</p>'',
          resp_headers = [''Set-Cookie'' \<mapsto> ''p=1; ae=l=kac; Path=/'']\<rparr>)
     (set_cookie \<lparr>resp_text = ''<p>hello</p>'',
          resp_headers = [''Set-Cookie'' \<mapsto> ''p=1; ae=l=kac; Path=/'']\<rparr>) = Some ''kac''"
  "locale_used (resp_text \<lparr>resp_text = ''<p>hello</p>'', resp_headers = Map.empty\<rparr>)
     (set_cookie \<lparr>resp_text = ''<p>hello</p>'', resp_headers = Map.empty\<rparr>) = None"
  by (simp_all add: set_cookie_def demo_locale_cookie)

lemma demo_classify:
  "classify demo_lc loose ''oci'' (Some ''oc'') = (''alt'', ''oc'')"
  "classify demo_lc loose ''kab'' (Some ''kab'') = (''alt'', ''kab'')"
  "classify demo_lc loose ''kac'' (Some ''kac'') = (''ok'', ''kac'')"
  "classify demo_lc loose ''kal'' None = (''unk'', ''no locale hint'')"
  "classify demo_lc loose ''kar'' (Some ''zz'') =
     (''unk'', ''invalid locale '' @ [CHR 0x27] @ ''zz'' @ [CHR 0x27])"
  "classify demo_lc loose ''kat'' (Some ''kat-GE'') =
     (if loose then ''ok'' else ''collision'', ''kat-GE'')"
  "classify demo_lc loose ''kau'' (Some ''de'') = (''collision'', ''de'')"
  "classify demo_lc loose ''kaw'' (Some ''de'') = (''collision'', ''de'')"
  "classify demo_lc loose ''kaz'' (Some ''de'') = (''collision'', ''de'')"
  by (simp_all add: classify_def demo_valid FALLBACKS_def repr_tag_def)

lemma demo_test_code:
  "test_code demo_lc demo_sess demo_url ua loose ''oci'' = Inr (''alt'', ''oc'')"
  "test_code demo_lc demo_sess demo_url ua loose ''kab'' = Inr (''alt'', ''kab'')"
  "test_code demo_lc demo_sess demo_url ua loose ''kam'' = Inr (''error'', ''Connection refused'')"
  "test_code demo_lc demo_sess demo_url ua loose ''kac'' = Inr (''ok'', ''kac'')"
  "test_code demo_lc demo_sess demo_url ua loose ''kal'' = Inr (''unk'', ''no locale hint'')"
  "test_code demo_lc demo_sess demo_url ua loose ''kar'' =
     Inr (''unk'', ''invalid locale '' @ [CHR 0x27] @ ''zz'' @ [CHR 0x27])"
  "test_code demo_lc demo_sess demo_url ua loose ''kat'' =
     Inr (if loose then ''ok'' else ''collision'', ''kat-GE'')"
  "test_code demo_lc demo_sess demo_url ua loose ''kau'' = Inr (''collision'', ''de'')"
  "test_code demo_lc demo_sess demo_url ua loose ''kaw'' = Inr (''collision'', ''de'')"
  "test_code demo_lc demo_sess demo_url ua loose ''kaz'' = Inr (''collision'', ''de'')"
  by (simp_all only: test_code_def demo_sess_code demo_locale_page demo_locale_resp
      demo_classify sum.case exn.case)

lemma demo_test_one: "test_one demo_lc demo_sess demo_url ua loose = Inr (demo_results loose)"
  by (simp add: test_one_def CODES_def demo_test_code demo_results_def)

lemma english_sess:
  "demo_sess ''https://english.example/'' hdrs timeout = Inr (demo_page ''en-US'')"
  by (simp add: demo_sess_def)

lemma english_test_code:
  "test_code demo_lc demo_sess ''https://english.example/'' [] loose ''oci'' = Inr (''fallback'', ''en-US'')"
  "test_code demo_lc demo_sess ''https://english.example/'' [] loose ''kab'' = Inr (''fallback'', ''en-US'')"
  "test_code demo_lc demo_sess ''https://english.example/'' [] loose ''kam'' = Inr (''collision'', ''en-US'')"
  "test_code demo_lc demo_sess ''https://english.example/'' [] loose ''kac'' = Inr (''collision'', ''en-US'')"
  "test_code demo_lc demo_sess ''https://english.example/'' [] loose ''kal'' = Inr (''collision'', ''en-US'')"
  "test_code demo_lc demo_sess ''https://english.example/'' [] loose ''kar'' = Inr (''collision'', ''en-US'')"
  "test_code demo_lc demo_sess ''https://english.example/'' [] loose ''kat'' = Inr (''collision'', ''en-US'')"
  "test_code demo_lc demo_sess ''https://english.example/'' [] loose ''kau'' = Inr (''collision'', ''en-US'')"
  "test_code demo_lc demo_sess ''https://english.example/'' [] loose ''kaw'' = Inr (''collision'', ''en-US'')"
  "test_code demo_lc demo_sess ''https://english.example/'' [] loose ''kaz'' = Inr (''collision'', ''en-US'')"
  by (simp_all add: test_code_def english_sess classify_def demo_locale_page demo_valid
      FALLBACKS_def)

lemma english_test_one:
  "test_one demo_lc demo_sess ''https://english.example/'' [] loose = Inr english_results"
  by (simp add: test_one_def CODES_def english_test_code english_results_def)

lemma variant_sess:
  "demo_sess ''https://variant.example/'' hdrs timeout = Inr (demo_page ''kab-Latn'')"
  by (simp add: demo_sess_def)

lemma variant_test_code:
  "test_code demo_lc demo_sess ''https://variant.example/'' ua loose ''oci'' = Inr (''collision'', ''kab-Latn'')"
  "test_code demo_lc demo_sess ''https://variant.example/'' ua loose ''kab'' = Inr (''alt'', ''kab-Latn'')"
  "test_code demo_lc demo_sess ''https://variant.example/'' ua loose ''kam'' = Inr (''collision'', ''kab-Latn'')"
  "test_code demo_lc demo_sess ''https://variant.example/'' ua loose ''kac'' = Inr (''collision'', ''kab-Latn'')"
  "test_code demo_lc demo_sess ''https://variant.example/'' ua loose ''kal'' = Inr (''collision'', ''kab-Latn'')"
  "test_code demo_lc demo_sess ''https://variant.example/'' ua loose ''kar'' = Inr (''collision'', ''kab-Latn'')"
  "test_code demo_lc demo_sess ''https://variant.example/'' ua loose ''kat'' = Inr (''collision'', ''kab-Latn'')"
  "test_code demo_lc demo_sess ''https://variant.example/'' ua loose ''kau'' = Inr (''collision'', ''kab-Latn'')"
  "test_code demo_lc demo_sess ''https://variant.example/'' ua loose ''kaw'' = Inr (''collision'', ''kab-Latn'')"
  "test_code demo_lc demo_sess ''https://variant.example/'' ua loose ''kaz'' = Inr (''collision'', ''kab-Latn'')"
  by (simp_all add: test_code_def variant_sess classify_def demo_locale_page demo_valid
      FALLBACKS_def)

lemma variant_test_one:
  "test_one demo_lc demo_sess ''https://variant.example/'' ua loose = Inr variant_results"
  by (simp add: test_one_def CODES_def variant_test_code variant_results_def)

section \<open>The alternate rule for \<open>kab\<close> comes before the comparison\<close>

text \<open>
  C10. When \<open>kab\<close> is requested and the server answers with the valid tag \<open>kab\<close>
  itself, \<^verbatim>\<open>test_one\<close> stores \<open>(alt, kab)\<close> for \<open>kab\<close>, in strict and in loose
  mode alike: the prefix test for the alternates of \<open>kab\<close> stands before the normal
  verdict, so the exact match is never labelled \<open>ok\<close>.
\<close>

theorem kab_exact_match_is_alt:
  assumes "test_one lc sess url ua loose = Inr results"
    and "sess url (request_headers ''kab'' ua) 15 = Inr r"
    and "locale_used (resp_text r) (set_cookie r) = Some ''kab''"
    and "validated_lang_body lc ''kab'' \<noteq> None"
  shows "results ''kab'' = Some (''alt'', ''kab'')"
proof -
  have "''kab'' \<in> fst ` set CODES" by (simp add: CODES_def)
  from test_one_lookup [OF assms(1) this] obtain v where
    v: "test_code lc sess url ua loose ''kab'' = Inr v" and res: "results ''kab'' = Some v"
    by blast
  from v assms(2-4) have "v = (''alt'', ''kab'')"
    by (simp add: test_code_def classify_def)
  with res show ?thesis by simp
qed

theorem kab_exact_match_is_alt_witness:
  "test_one demo_lc demo_sess demo_url [] False = Inr (demo_results False) \<and>
   test_one demo_lc demo_sess demo_url [] True = Inr (demo_results True) \<and>
   demo_sess demo_url (request_headers ''kab'' []) 15 = Inr (demo_page ''kab'') \<and>
   locale_used (resp_text (demo_page ''kab'')) (set_cookie (demo_page ''kab'')) = Some ''kab'' \<and>
   validated_lang_body demo_lc ''kab'' \<noteq> None \<and>
   demo_results False ''kab'' = Some (''alt'', ''kab'') \<and>
   demo_results True ''kab'' = Some (''alt'', ''kab'')"
proof -
  have v: "validated_lang_body demo_lc ''kab'' \<noteq> None"
    by (simp add: demo_valid)
  have strict: "demo_results False ''kab'' = Some (''alt'', ''kab'')"
    by (rule kab_exact_match_is_alt
        [OF demo_test_one demo_sess_code(2) demo_locale_page(2) v])
  have loose: "demo_results True ''kab'' = Some (''alt'', ''kab'')"
    by (rule kab_exact_match_is_alt
        [OF demo_test_one demo_sess_code(2) demo_locale_page(2) v])
  from strict loose v show ?thesis
    by (simp only: demo_test_one demo_sess_code demo_locale_page simp_thms)
qed

section \<open>The labels of the classifier\<close>

lemma classify_label_set:
  "fst (classify lc loose code maybe_got) \<in> {''ok'', ''alt'', ''fallback'', ''collision'', ''unk''}"
  by (simp add: classify_def split: option.split)

lemma classify_alt_fallback:
  "fst (classify lc loose code maybe_got) = ''alt'' \<or>
   fst (classify lc loose code maybe_got) = ''fallback'' \<Longrightarrow> code = ''oci'' \<or> code = ''kab''"
  by (simp add: classify_def split: option.split_asm if_split_asm)


lemma test_code_cases:
  assumes "test_code lc sess url ua loose code = Inr v"
  shows "(\<exists>e. sess url (request_headers code ua) 15 = Inl (RequestException e) \<and> v = (''error'', e)) \<or>
         (\<exists>r. sess url (request_headers code ua) 15 = Inr r \<and>
              v = classify lc loose code (locale_used (resp_text r) (set_cookie r)))"
proof (cases "sess url (request_headers code ua) 15")
  case (Inl e)
  with assms show ?thesis by (cases e) (simp_all add: test_code_def)
next
  case (Inr r)
  with assms show ?thesis by (simp add: test_code_def)
qed

lemma test_code_label_set:
  assumes "test_code lc sess url ua loose code = Inr v"
  shows "fst v \<in> {''ok'', ''alt'', ''fallback'', ''collision'', ''unk'', ''error''}"
proof -
  from test_code_cases [OF assms] show ?thesis
  proof (elim disjE exE conjE)
    fix e assume "v = (''error'', e)"
    then show ?thesis by simp
  next
    fix r assume v: "v = classify lc loose code (locale_used (resp_text r) (set_cookie r))"
    have "fst v \<in> {''ok'', ''alt'', ''fallback'', ''collision'', ''unk''}"
      unfolding v by (rule classify_label_set)
    then show ?thesis
      by (simp only: insert_iff) blast
  qed
qed

lemma test_code_alt_fallback:
  assumes "test_code lc sess url ua loose code = Inr v"
    and "fst v = ''alt'' \<or> fst v = ''fallback''"
  shows "code = ''oci'' \<or> code = ''kab''"
proof -
  from test_code_cases [OF assms(1)] show ?thesis
  proof (elim disjE exE conjE)
    fix e assume "v = (''error'', e)"
    with assms(2) show ?thesis by simp
  next
    fix r assume v: "v = classify lc loose code (locale_used (resp_text r) (set_cookie r))"
    show ?thesis
      by (rule classify_alt_fallback [of lc loose code "locale_used (resp_text r) (set_cookie r)"])
         (use assms(2) in \<open>simp only: v\<close>)
  qed
qed

text \<open>
  C5. Whatever the oracle, the server and the mode: when \<^verbatim>\<open>test_one\<close> returns, every
  entry of its result belongs to a code of \<^const>\<open>CODES\<close> and carries one of the six
  labels; the labels \<open>alt\<close> and \<open>fallback\<close> occur only for the codes \<open>oci\<close> and
  \<open>kab\<close>, so every other code has \<open>ok\<close>, \<open>collision\<close>, \<open>unk\<close> or \<open>error\<close>.
\<close>

theorem alt_and_fallback_only_for_oci_kab:
  assumes "test_one lc sess url ua loose = Inr results"
    and "results code = Some (label, evidence)"
  shows "code \<in> fst ` set CODES \<and>
    label \<in> {''ok'', ''alt'', ''fallback'', ''collision'', ''unk'', ''error''} \<and>
    (label = ''alt'' \<or> label = ''fallback'' \<longrightarrow> code = ''oci'' \<or> code = ''kab'') \<and>
    (code \<noteq> ''oci'' \<and> code \<noteq> ''kab'' \<longrightarrow> label \<in> {''ok'', ''collision'', ''unk'', ''error''})"
proof -
  from assms(2) have "code \<in> dom results" by (rule domI)
  with test_one_dom [OF assms(1)] have code: "code \<in> fst ` set CODES" by simp
  from test_one_lookup [OF assms(1) code] obtain v where
    tc: "test_code lc sess url ua loose code = Inr v" and "results code = Some v" by blast
  with assms(2) have v: "fst v = label" by simp
  from test_code_label_set [OF tc]
  have six: "label \<in> {''ok'', ''alt'', ''fallback'', ''collision'', ''unk'', ''error''}"
    unfolding v .
  have af: "code = ''oci'' \<or> code = ''kab''" if "label = ''alt'' \<or> label = ''fallback''"
    using test_code_alt_fallback [OF tc] that unfolding v .
  have rest: "label \<in> {''ok'', ''collision'', ''unk'', ''error''}"
    if "code \<noteq> ''oci'' \<and> code \<noteq> ''kab''"
  proof -
    from af that have "label \<noteq> ''alt''" and "label \<noteq> ''fallback''" by blast+
    with six show ?thesis by (simp only: insert_iff) blast
  qed
  show ?thesis
  proof (intro conjI impI)
    show "code \<in> fst ` set CODES" by (rule code)
    show "label \<in> {''ok'', ''alt'', ''fallback'', ''collision'', ''unk'', ''error''}" by (rule six)
    show "code = ''oci'' \<or> code = ''kab''" if "label = ''alt'' \<or> label = ''fallback''"
      using that by (rule af)
    show "label \<in> {''ok'', ''collision'', ''unk'', ''error''}"
      if "code \<noteq> ''oci'' \<and> code \<noteq> ''kab''" using that by (rule rest)
  qed
qed

theorem alt_and_fallback_only_for_oci_kab_witness:
  "test_one demo_lc demo_sess demo_url [] False = Inr (demo_results False) \<and>
   demo_results False ''oci'' = Some (''alt'', ''oc'') \<and>
   demo_results False ''kat'' = Some (''collision'', ''kat-GE'') \<and>
   ''oci'' \<in> fst ` set CODES \<and> ''kat'' \<in> fst ` set CODES \<and>
   ''alt'' \<in> {''ok'', ''alt'', ''fallback'', ''collision'', ''unk'', ''error''} \<and>
   (''oci'' = ''oci'' \<or> ''oci'' = ''kab'') \<and>
   ''collision'' \<in> {''ok'', ''collision'', ''unk'', ''error''}"
proof -
  have oci: "demo_results False ''oci'' = Some (''alt'', ''oc'')"
    by (simp add: demo_results_def)
  have kat: "demo_results False ''kat'' = Some (''collision'', ''kat-GE'')"
    by (simp add: demo_results_def)
  from alt_and_fallback_only_for_oci_kab [OF demo_test_one oci]
       alt_and_fallback_only_for_oci_kab [OF demo_test_one kat] oci kat
  show ?thesis by (simp add: demo_test_one)
qed

section \<open>The order of the rules\<close>

lemma test_one_response:
  assumes "test_one lc sess url ua loose = Inr results"
    and "code \<in> fst ` set CODES"
    and "sess url (request_headers code ua) 15 = Inr r"
  shows "results code = Some (classify lc loose code (locale_used (resp_text r) (set_cookie r)))"
proof -
  from test_one_lookup [OF assms(1,2)] obtain v where
    v: "test_code lc sess url ua loose code = Inr v" and res: "results code = Some v"
    by blast
  from v assms(3) have "v = classify lc loose code (locale_used (resp_text r) (set_cookie r))"
    by (simp add: test_code_def)
  with res show ?thesis by simp
qed

lemma test_one_failure:
  assumes "test_one lc sess url ua loose = Inr results"
    and "code \<in> fst ` set CODES"
    and "sess url (request_headers code ua) 15 = Inl (RequestException e)"
  shows "results code = Some (''error'', e)"
proof -
  from test_one_lookup [OF assms(1,2)] obtain v where
    v: "test_code lc sess url ua loose code = Inr v" and res: "results code = Some v"
    by blast
  from v assms(3) have "v = (''error'', e)"
    by (simp add: test_code_def)
  with res show ?thesis by simp
qed

lemma classify_valid:
  assumes "got \<noteq> []" and "validated_lang_body lc got \<noteq> None"
  shows "classify lc loose code (Some got) =
    (if code = ''oci'' \<and> got = ''oc'' then (''alt'', got)
     else if code = ''kab'' \<and> prefix ''kab'' got then (''alt'', got)
     else if (code = ''oci'' \<or> code = ''kab'') \<and> (\<exists>f\<in>FALLBACKS. prefix f got)
       then (''fallback'', got)
     else if loose then (if prefix code got then ''ok'' else ''collision'', got)
     else (if got = code then ''ok'' else ''collision'', got))"
  by (simp only: classify_def option.case if_not_P [OF assms(1)] if_not_P [OF assms(2)])

lemma classify_alt_oci:
  assumes "validated_lang_body lc ''oc'' \<noteq> None"
  shows "classify lc loose ''oci'' (Some ''oc'') = (''alt'', ''oc'')"
  using assms by (simp add: classify_def)

lemma classify_alt_kab:
  assumes "got \<noteq> []" and "validated_lang_body lc got \<noteq> None" and "prefix ''kab'' got"
  shows "classify lc loose ''kab'' (Some got) = (''alt'', got)"
  using assms(3) by (simp add: classify_valid [OF assms(1,2)])

lemma classify_fallback:
  assumes "got \<noteq> []" and "validated_lang_body lc got \<noteq> None"
    and "code = ''oci'' \<or> code = ''kab''"
    and "\<not> (code = ''oci'' \<and> got = ''oc'')" and "\<not> (code = ''kab'' \<and> prefix ''kab'' got)"
    and "\<exists>f\<in>FALLBACKS. prefix f got"
  shows "classify lc loose code (Some got) = (''fallback'', got)"
proof -
  from assms(3,6) have c: "(code = ''oci'' \<or> code = ''kab'') \<and> (\<exists>f\<in>FALLBACKS. prefix f got)"
    by (rule conjI)
  show ?thesis
    by (simp only: classify_valid [OF assms(1,2)] if_not_P [OF assms(4)]
        if_not_P [OF assms(5)] if_P [OF c])
qed

lemma classify_normal:
  assumes "got \<noteq> []" and "validated_lang_body lc got \<noteq> None"
    and "\<not> (code = ''oci'' \<and> got = ''oc'')" and "\<not> (code = ''kab'' \<and> prefix ''kab'' got)"
    and "\<not> ((code = ''oci'' \<or> code = ''kab'') \<and> (\<exists>f\<in>FALLBACKS. prefix f got))"
  shows "classify lc loose code (Some got) =
    (if loose then (if prefix code got then ''ok'' else ''collision'')
     else (if got = code then ''ok'' else ''collision''), got)"
proof (cases loose)
  case True
  then show ?thesis
    by (simp only: classify_valid [OF assms(1,2)] if_not_P [OF assms(3)]
        if_not_P [OF assms(4)] if_not_P [OF assms(5)] if_True)
next
  case False
  then show ?thesis
    by (simp only: classify_valid [OF assms(1,2)] if_not_P [OF assms(3)]
        if_not_P [OF assms(4)] if_not_P [OF assms(5)] if_False)
qed

text \<open>
  C4. For the codes \<open>oci\<close> and \<open>kab\<close> and a response whose extracted tag is valid:
  \<open>oci\<close> with the tag \<open>oc\<close> is stored as \<open>(alt, oc)\<close> and \<open>kab\<close> with a tag that
  starts with \<open>kab\<close> as \<open>(alt, tag)\<close>, in strict and loose mode alike; when neither
  alternate applies and the tag starts with a member of \<^const>\<open>FALLBACKS\<close>, which is
  \<open>{en}\<close>, the entry is \<open>(fallback, tag)\<close>. None of these reaches the normal verdict.
\<close>

theorem alternate_then_fallback:
  assumes "test_one lc sess url ua loose = Inr results"
    and "code = ''oci'' \<or> code = ''kab''"
    and "sess url (request_headers code ua) 15 = Inr r"
    and "locale_used (resp_text r) (set_cookie r) = Some got"
    and "validated_lang_body lc got \<noteq> None"
  shows "(code = ''oci'' \<and> got = ''oc'' \<longrightarrow> results code = Some (''alt'', ''oc'')) \<and>
    (code = ''kab'' \<and> prefix ''kab'' got \<longrightarrow> results code = Some (''alt'', got)) \<and>
    (\<not> (code = ''oci'' \<and> got = ''oc'') \<and> \<not> (code = ''kab'' \<and> prefix ''kab'' got) \<and>
       (\<exists>f\<in>FALLBACKS. prefix f got) \<longrightarrow> results code = Some (''fallback'', got)) \<and>
    FALLBACKS = {''en''}"
proof -
  from assms(2) have code: "code \<in> fst ` set CODES" by (auto simp: CODES_def)
  from assms(4) have ne: "got \<noteq> []" by (rule locale_used_nonempty)
  have res: "results code = Some (classify lc loose code (Some got))"
    using test_one_response [OF assms(1) code assms(3)] by (simp only: assms(4))
  have a1: "results code = Some (''alt'', ''oc'')" if "code = ''oci'' \<and> got = ''oc''"
    using that assms(5) res by (simp add: classify_alt_oci)
  have a2: "results code = Some (''alt'', got)" if "code = ''kab'' \<and> prefix ''kab'' got"
    using that res by (simp add: classify_alt_kab [OF ne assms(5)])
  have a3: "results code = Some (''fallback'', got)"
    if "\<not> (code = ''oci'' \<and> got = ''oc'') \<and> \<not> (code = ''kab'' \<and> prefix ''kab'' got) \<and>
       (\<exists>f\<in>FALLBACKS. prefix f got)"
  proof -
    from that have n1: "\<not> (code = ''oci'' \<and> got = ''oc'')"
      and n2: "\<not> (code = ''kab'' \<and> prefix ''kab'' got)"
      and f: "\<exists>f\<in>FALLBACKS. prefix f got" by blast+
    show ?thesis
      by (simp only: res classify_fallback [OF ne assms(5) assms(2) n1 n2 f])
  qed
  from a1 a2 a3 show ?thesis by (simp only: FALLBACKS_def) blast
qed

theorem alternate_then_fallback_witness:
  "test_one demo_lc demo_sess demo_url [] False = Inr (demo_results False) \<and>
   test_one demo_lc demo_sess demo_url [] True = Inr (demo_results True) \<and>
   demo_sess demo_url (request_headers ''oci'' []) 15 = Inr (demo_page ''oc'') \<and>
   locale_used (resp_text (demo_page ''oc'')) (set_cookie (demo_page ''oc'')) = Some ''oc'' \<and>
   validated_lang_body demo_lc ''oc'' \<noteq> None \<and>
   demo_results False ''oci'' = Some (''alt'', ''oc'') \<and>
   demo_results True ''oci'' = Some (''alt'', ''oc'') \<and>
   test_one demo_lc demo_sess ''https://variant.example/'' [] False = Inr variant_results \<and>
   demo_sess ''https://variant.example/'' (request_headers ''kab'' []) 15 =
     Inr (demo_page ''kab-Latn'') \<and>
   locale_used (resp_text (demo_page ''kab-Latn'')) (set_cookie (demo_page ''kab-Latn'')) =
     Some ''kab-Latn'' \<and>
   validated_lang_body demo_lc ''kab-Latn'' \<noteq> None \<and>
   prefix ''kab'' ''kab-Latn'' \<and>
   variant_results ''kab'' = Some (''alt'', ''kab-Latn'') \<and>
   test_one demo_lc demo_sess ''https://english.example/'' [] True = Inr english_results \<and>
   demo_sess ''https://english.example/'' (request_headers ''oci'' []) 15 =
     Inr (demo_page ''en-US'') \<and>
   locale_used (resp_text (demo_page ''en-US'')) (set_cookie (demo_page ''en-US'')) =
     Some ''en-US'' \<and>
   validated_lang_body demo_lc ''en-US'' \<noteq> None \<and>
   (\<exists>f\<in>FALLBACKS. prefix f ''en-US'') \<and>
   english_results ''oci'' = Some (''fallback'', ''en-US'')"
proof -
  have v1: "validated_lang_body demo_lc ''oc'' \<noteq> None"
    and v2: "validated_lang_body demo_lc ''kab-Latn'' \<noteq> None"
    and v3: "validated_lang_body demo_lc ''en-US'' \<noteq> None"
    by (simp_all add: demo_valid)
  have oci: "''oci'' = ''oci'' \<or> ''oci'' = ''kab''" and kab: "''kab'' = ''oci'' \<or> ''kab'' = ''kab''"
    by simp_all
  have p: "prefix ''kab'' ''kab-Latn''" and f: "\<exists>f\<in>FALLBACKS. prefix f ''en-US''"
    by (simp_all add: FALLBACKS_def)
  have strict: "demo_results False ''oci'' = Some (''alt'', ''oc'')"
    using alternate_then_fallback [OF demo_test_one oci demo_sess_code(1) demo_locale_page(1) v1]
    by simp
  have loose: "demo_results True ''oci'' = Some (''alt'', ''oc'')"
    using alternate_then_fallback [OF demo_test_one oci demo_sess_code(1) demo_locale_page(1) v1]
    by simp
  have variant: "variant_results ''kab'' = Some (''alt'', ''kab-Latn'')"
    using alternate_then_fallback [OF variant_test_one kab variant_sess demo_locale_page(7) v2] p
    by simp
  have english: "english_results ''oci'' = Some (''fallback'', ''en-US'')"
    using alternate_then_fallback [OF english_test_one oci english_sess demo_locale_page(6) v3] f
    by simp
  from v1 v2 v3 p f strict loose variant english show ?thesis
    by (simp only: demo_test_one variant_test_one english_test_one demo_sess_code
        variant_sess english_sess demo_locale_page simp_thms)
qed

text \<open>
  C6. For a code of \<^const>\<open>CODES\<close> and a response whose extracted tag is valid, when
  neither the alternate rule nor the fallback rule applies: in loose mode the label is
  \<open>ok\<close> exactly when the tag starts with the code, in strict mode exactly when the tag
  equals the code, and \<open>collision\<close> otherwise; the evidence is the tag. The witness is
  the code \<open>kat\<close> with the tag \<open>kat-GE\<close>: \<open>ok\<close> in loose mode, \<open>collision\<close> in strict
  mode.
\<close>

theorem normal_verdict:
  assumes "test_one lc sess url ua loose = Inr results"
    and "code \<in> fst ` set CODES"
    and "sess url (request_headers code ua) 15 = Inr r"
    and "locale_used (resp_text r) (set_cookie r) = Some got"
    and "validated_lang_body lc got \<noteq> None"
    and "\<not> (code = ''oci'' \<and> got = ''oc'')"
    and "\<not> (code = ''kab'' \<and> prefix ''kab'' got)"
    and "\<not> ((code = ''oci'' \<or> code = ''kab'') \<and> (\<exists>f\<in>FALLBACKS. prefix f got))"
  shows "results code =
    Some (if loose then (if prefix code got then ''ok'' else ''collision'')
          else (if got = code then ''ok'' else ''collision''), got)"
proof -
  from assms(4) have ne: "got \<noteq> []" by (rule locale_used_nonempty)
  have res: "results code = Some (classify lc loose code (Some got))"
    using test_one_response [OF assms(1,2,3)] by (simp only: assms(4))
  show ?thesis
    by (simp only: res classify_normal [OF ne assms(5) assms(6) assms(7) assms(8)])
qed

theorem normal_verdict_witness:
  "test_one demo_lc demo_sess demo_url [] True = Inr (demo_results True) \<and>
   test_one demo_lc demo_sess demo_url [] False = Inr (demo_results False) \<and>
   ''kat'' \<in> fst ` set CODES \<and>
   demo_sess demo_url (request_headers ''kat'' []) 15 = Inr (demo_page ''kat-GE'') \<and>
   locale_used (resp_text (demo_page ''kat-GE'')) (set_cookie (demo_page ''kat-GE'')) =
     Some ''kat-GE'' \<and>
   validated_lang_body demo_lc ''kat-GE'' \<noteq> None \<and>
   \<not> (''kat'' = ''oci'' \<and> ''kat-GE'' = ''oc'') \<and>
   \<not> (''kat'' = ''kab'' \<and> prefix ''kab'' ''kat-GE'') \<and>
   \<not> ((''kat'' = ''oci'' \<or> ''kat'' = ''kab'') \<and> (\<exists>f\<in>FALLBACKS. prefix f ''kat-GE'')) \<and>
   demo_results True ''kat'' = Some (''ok'', ''kat-GE'') \<and>
   demo_results False ''kat'' = Some (''collision'', ''kat-GE'')"
proof -
  have c: "''kat'' \<in> fst ` set CODES" by (simp add: CODES_def)
  have v: "validated_lang_body demo_lc ''kat-GE'' \<noteq> None" by (simp add: demo_valid)
  have n1: "\<not> (''kat'' = ''oci'' \<and> ''kat-GE'' = ''oc'')"
    and n2: "\<not> (''kat'' = ''kab'' \<and> prefix ''kab'' ''kat-GE'')"
    and n3: "\<not> ((''kat'' = ''oci'' \<or> ''kat'' = ''kab'') \<and> (\<exists>f\<in>FALLBACKS. prefix f ''kat-GE''))"
    by simp_all
  have loose: "demo_results True ''kat'' = Some (''ok'', ''kat-GE'')"
    using normal_verdict [OF demo_test_one c demo_sess_code(7) demo_locale_page(4) v n1 n2 n3,
        of True]
    by simp
  have strict: "demo_results False ''kat'' = Some (''collision'', ''kat-GE'')"
    using normal_verdict [OF demo_test_one c demo_sess_code(7) demo_locale_page(4) v n1 n2 n3,
        of False]
    by simp
  from c v n1 n2 n3 loose strict show ?thesis
    by (simp only: demo_test_one demo_sess_code demo_locale_page simp_thms)
qed

section \<open>One verdict for every code\<close>

lemma demo_sess_no_crash: "demo_sess demo_url hdrs timeout \<noteq> Inl (OtherException e)"
  by (simp add: demo_sess_def demo_url_def)

text \<open>
  C3. A transport outcome is a response or a \<^verbatim>\<open>RequestException\<close>, the class under
  which \<^verbatim>\<open>requests\<close> raises connection, timeout and TLS failures. For every target,
  mode and oracle, and every such outcome per code, \<^verbatim>\<open>test_one\<close> returns a dictionary
  whose keys are exactly the codes of \<^const>\<open>CODES\<close>: a code whose request failed has
  \<open>(error, description)\<close>, and every code that was answered has the verdict of the
  classifier for its own response, whatever happened to the other codes.
\<close>

theorem every_code_gets_one_verdict:
  assumes "\<And>code e. code \<in> fst ` set CODES \<Longrightarrow>
      sess url (request_headers code ua) 15 \<noteq> Inl (OtherException e)"
  shows "\<exists>results. test_one lc sess url ua loose = Inr results \<and>
    dom results = fst ` set CODES \<and>
    (\<forall>code e. code \<in> fst ` set CODES \<and>
        sess url (request_headers code ua) 15 = Inl (RequestException e) \<longrightarrow>
        results code = Some (''error'', e)) \<and>
    (\<forall>code r. code \<in> fst ` set CODES \<and> sess url (request_headers code ua) 15 = Inr r \<longrightarrow>
        results code =
          Some (classify lc loose code (locale_used (resp_text r) (set_cookie r))))"
proof -
  have "\<exists>v. test_code lc sess url ua loose code = Inr v" if "code \<in> fst ` set CODES" for code
  proof (cases "sess url (request_headers code ua) 15")
    case (Inl e)
    show ?thesis
    proof (cases e)
      case (RequestException d)
      with Inl show ?thesis by (simp add: test_code_def)
    next
      case (OtherException d)
      with Inl assms [OF that, of d] show ?thesis by simp
    qed
  next
    case (Inr r)
    then show ?thesis by (simp add: test_code_def)
  qed
  then have "\<exists>results. test_loop lc sess url ua loose CODES Map.empty = Inr results"
    by (rule test_loop_total)
  then obtain results where r: "test_one lc sess url ua loose = Inr results"
    by (auto simp: test_one_def)
  from test_one_dom [OF r] test_one_failure [OF r] test_one_response [OF r] r
  show ?thesis by blast
qed

theorem every_code_gets_one_verdict_witness:
  "test_one demo_lc demo_sess demo_url [] False = Inr (demo_results False) \<and>
   dom (demo_results False) = fst ` set CODES \<and>
   demo_sess demo_url (request_headers ''kam'' []) 15 =
     Inl (RequestException ''Connection refused'') \<and>
   demo_results False ''kam'' = Some (''error'', ''Connection refused'') \<and>
   demo_results False ''kat'' = Some (''collision'', ''kat-GE'') \<and>
   demo_results False ''kaz'' = Some (''collision'', ''de'')"
proof -
  from every_code_gets_one_verdict [of demo_sess demo_url "[]" demo_lc False, OF demo_sess_no_crash]
  obtain results where all:
    "test_one demo_lc demo_sess demo_url [] False = Inr results \<and>
     dom results = fst ` set CODES \<and>
     (\<forall>code e. code \<in> fst ` set CODES \<and>
        demo_sess demo_url (request_headers code []) 15 = Inl (RequestException e) \<longrightarrow>
        results code = Some (''error'', e)) \<and>
     (\<forall>code r. code \<in> fst ` set CODES \<and> demo_sess demo_url (request_headers code []) 15 = Inr r \<longrightarrow>
        results code =
          Some (classify demo_lc False code (locale_used (resp_text r) (set_cookie r))))" ..
  from all have r: "test_one demo_lc demo_sess demo_url [] False = Inr results"
    by (rule conjunct1)
  then have eq: "results = demo_results False" by (simp only: demo_test_one sum.inject)
  from all have d: "dom (demo_results False) = fst ` set CODES"
    unfolding eq by (elim conjE)
  from all have e: "\<forall>code e. code \<in> fst ` set CODES \<and>
        demo_sess demo_url (request_headers code []) 15 = Inl (RequestException e) \<longrightarrow>
        demo_results False code = Some (''error'', e)"
    unfolding eq by (elim conjE)
  have kam: "''kam'' \<in> fst ` set CODES" by (simp add: CODES_def)
  from e kam demo_sess_code(3)
  have k: "demo_results False ''kam'' = Some (''error'', ''Connection refused'')"
    by (elim allE [of _ "''kam''"] allE [of _ "''Connection refused''"]) (rule mp, assumption, rule conjI)
  have rest: "demo_results False ''kat'' = Some (''collision'', ''kat-GE'')"
    "demo_results False ''kaz'' = Some (''collision'', ''de'')"
    by (simp_all add: demo_results_def)
  from d k rest show ?thesis
    by (simp only: demo_test_one demo_sess_code simp_thms)
qed

section \<open>The cache of \<^verbatim>\<open>_validated_lang\<close>\<close>

lemma memo_ok_empty: "memo_ok lc memo_empty"
  by (simp add: memo_ok_def memo_empty_def)

lemma validated_lang_transparent:
  assumes "memo_ok lc m"
  shows "fst (validated_lang lc tag m) = validated_lang_body lc tag"
    and "memo_ok lc (snd (validated_lang lc tag m))"
proof -
  show "fst (validated_lang lc tag m) = validated_lang_body lc tag"
    using assms by (auto simp: validated_lang_def memo_ok_def Let_def split: option.splits)
  show "memo_ok lc (snd (validated_lang lc tag m))"
  proof (cases "cache m tag")
    case None
    with assms have "tag \<notin> set (calls m)" by (auto simp: memo_ok_def)
    with None assms show ?thesis
      by (auto simp: validated_lang_def memo_ok_def Let_def split: if_splits)
  next
    case (Some r)
    with assms show ?thesis by (simp add: validated_lang_def)
  qed
qed

lemma validated_lang_calls:
  "calls (snd (validated_lang lc tag m)) =
     (if cache m tag = None then calls m @ [tag] else calls m)"
  by (simp add: validated_lang_def Let_def split: option.splits)

lemma validated_lang_cached:
  "cache (snd (validated_lang lc tag m)) tag = Some (fst (validated_lang lc tag m))"
  by (simp add: validated_lang_def Let_def split: option.splits)

lemma validated_lang_again:
  assumes "validated_lang lc tag m = (r1, m1)"
  shows "validated_lang lc tag m1 = (r1, m1)"
proof -
  from validated_lang_cached [of lc tag m] assms have "cache m1 tag = Some r1" by simp
  then show ?thesis by (simp add: validated_lang_def)
qed

lemma distinct_count_list_1: "distinct xs \<Longrightarrow> x \<in> set xs \<Longrightarrow> count_list xs x = 1"
  by (induction xs) auto

lemma validate_all_ok:
  assumes "memo_ok lc m0" and "validate_all lc ts m0 = (rs, m)"
  shows "memo_ok lc m \<and> rs = map (validated_lang_body lc) ts \<and>
    set (calls m) = set (calls m0) \<union> set ts"
  using assms
proof (induction ts arbitrary: m0 rs m)
  case Nil
  then show ?case by simp
next
  case (Cons t ts)
  obtain r m' where step: "validated_lang lc t m0 = (r, m')" by (cases "validated_lang lc t m0")
  obtain rs' m'' where rest: "validate_all lc ts m' = (rs', m'')"
    by (cases "validate_all lc ts m'")
  from Cons.prems(2) step rest have rs: "rs = r # rs'" and m: "m = m''" by simp_all
  from validated_lang_transparent [OF Cons.prems(1), of t] step
  have r: "r = validated_lang_body lc t" and ok': "memo_ok lc m'" by simp_all
  from validated_lang_calls [of lc t m0] step Cons.prems(1)
  have calls': "set (calls m') = insert t (set (calls m0))"
    by (auto simp: memo_ok_def split: if_splits)
  from Cons.IH [OF ok' rest] rs m r calls' show ?case by auto
qed

subsection \<open>Calls that overlap\<close>

lemma validated_lang_steps:
  "validated_lang lc tag m = (r, m') \<longleftrightarrow>
     (case call_step lc (Start tag) m of
        (c1, m1) \<Rightarrow> (case call_step lc c1 m1 of
          (c2, m2) \<Rightarrow> call_step lc c2 m2)) = (Finished tag r, m')"
  by (cases "cache m tag") (auto simp: validated_lang_def call_step_def Let_def)

lemma call_step_ok:
  assumes "call_ok lc tag c" and "cache_ok lc m"
  shows "call_ok lc tag (fst (call_step lc c m))" and "cache_ok lc (snd (call_step lc c m))"
proof -
  show "call_ok lc tag (fst (call_step lc c m))"
  proof (cases c)
    case (Start t)
    with assms(1) have t: "t = tag" by (simp add: call_ok_def)
    from assms(2) have "cache m tag = None \<or> cache m tag = Some (validated_lang_body lc tag)"
      by (simp add: cache_ok_def)
    then show ?thesis by (auto simp: Start t call_step_def call_ok_def)
  next
    case (Missed t)
    with assms(1) show ?thesis by (simp add: call_step_def call_ok_def)
  next
    case (Computed t r)
    with assms(1) show ?thesis by (simp add: call_step_def call_ok_def)
  next
    case (Finished t r)
    with assms(1) show ?thesis by (simp add: call_step_def call_ok_def)
  qed
  show "cache_ok lc (snd (call_step lc c m))"
  proof (cases c)
    case (Start t)
    with assms(2) show ?thesis by (cases "cache m t") (simp_all add: call_step_def)
  next
    case (Missed t)
    with assms(2) show ?thesis by (simp add: call_step_def cache_ok_def)
  next
    case (Computed t r)
    with assms(1) have "t = tag" and "r = validated_lang_body lc tag"
      by (simp_all add: call_ok_def)
    with assms(2) Computed show ?thesis by (simp add: call_step_def cache_ok_def)
  next
    case (Finished t r)
    with assms(2) show ?thesis by (simp add: call_step_def)
  qed
qed

lemma run_calls_ok:
  assumes "list_all2 (call_ok lc) tags cs" and "cache_ok lc m"
    and "run_calls lc sched (cs, m) = (cs', m')"
  shows "list_all2 (call_ok lc) tags cs' \<and> cache_ok lc m'"
  using assms
proof (induction sched arbitrary: cs m)
  case Nil
  then show ?case by simp
next
  case (Cons i sched)
  show ?case
  proof (cases "i < length cs")
    case False
    with Cons.prems(3) have "run_calls lc sched (cs, m) = (cs', m')" by simp
    from Cons.IH [OF Cons.prems(1,2) this] show ?thesis .
  next
    case True
    obtain c1 m1 where step: "call_step lc (cs ! i) m = (c1, m1)"
      by (cases "call_step lc (cs ! i) m")
    with True Cons.prems(3) have rest: "run_calls lc sched (cs[i := c1], m1) = (cs', m')"
      by simp
    from Cons.prems(1) True have len: "i < length tags" and ok: "call_ok lc (tags ! i) (cs ! i)"
      by (simp_all add: list_all2_conv_all_nth)
    from call_step_ok [OF ok Cons.prems(2)] step
    have c1: "call_ok lc (tags ! i) c1" and m1: "cache_ok lc m1" by simp_all
    from Cons.prems(1) c1 have "list_all2 (call_ok lc) (tags[i := tags ! i]) (cs[i := c1])"
      by (rule list_all2_update_cong)
    then have "list_all2 (call_ok lc) tags (cs[i := c1])" by simp
    from Cons.IH [OF this m1 rest] show ?thesis .
  qed
qed

lemma start_ok: "list_all2 (call_ok lc) tags (map Start tags)"
  by (simp add: list_all2_conv_all_nth call_ok_def)

lemma cache_ok_empty: "cache_ok lc memo_empty"
  by (simp add: cache_ok_def memo_empty_def)

lemma run_calls_results:
  assumes "run_calls lc sched (map Start tags, memo_empty) = (cs', m')"
  shows "length cs' = length tags \<and>
    (\<forall>i tag r. i < length cs' \<and> cs' ! i = Finished tag r \<longrightarrow>
       tag = tags ! i \<and> r = validated_lang_body lc tag)"
proof -
  from run_calls_ok [OF start_ok cache_ok_empty assms]
  have all: "list_all2 (call_ok lc) tags cs'" by (rule conjunct1)
  then have len: "length cs' = length tags" by (simp add: list_all2_lengthD)
  have "tag = tags ! i \<and> r = validated_lang_body lc tag"
    if "i < length cs' \<and> cs' ! i = Finished tag r" for i tag r
  proof -
    from that have i: "i < length cs'" and f: "cs' ! i = Finished tag r" by simp_all
    from all i have "call_ok lc (tags ! i) (cs' ! i)" by (simp add: list_all2_conv_all_nth)
    with f show ?thesis by (simp add: call_ok_def)
  qed
  with len show ?thesis by blast
qed

lemma call_step_stage: "min 3 (Suc (stage c)) \<le> stage (fst (call_step lc c m))"
  by (cases c) (simp_all add: call_step_def split: option.split)

lemma call_step_pending:
  "count_list (calls (snd (call_step lc c m))) t + pending t (fst (call_step lc c m)) \<le>
   count_list (calls m) t + pending t c"
  by (cases c) (simp_all add: call_step_def pending_def split: option.split)

lemma run_calls_length:
  "run_calls lc sched (cs, m) = (cs', m') \<Longrightarrow> length cs' = length cs"
proof (induction sched arbitrary: cs m)
  case Nil
  then show ?case by simp
next
  case (Cons i sched)
  show ?case
  proof (cases "i < length cs")
    case False
    with Cons.prems have "run_calls lc sched (cs, m) = (cs', m')" by simp
    from Cons.IH [OF this] show ?thesis .
  next
    case True
    obtain c1 m1 where step: "call_step lc (cs ! i) m = (c1, m1)"
      by (cases "call_step lc (cs ! i) m")
    with True Cons.prems have "run_calls lc sched (cs[i := c1], m1) = (cs', m')" by simp
    from Cons.IH [OF this] show ?thesis by simp
  qed
qed

lemma run_calls_progress:
  assumes "run_calls lc sched (cs, m) = (cs', m')" and "j < length cs"
  shows "min 3 (stage (cs ! j) + count_list sched j) \<le> stage (cs' ! j)"
  using assms
proof (induction sched arbitrary: cs m)
  case Nil
  then show ?case by simp
next
  case (Cons i sched)
  show ?case
  proof (cases "i < length cs")
    case False
    with Cons.prems(1) have rest: "run_calls lc sched (cs, m) = (cs', m')" by simp
    from False Cons.prems(2) have "i \<noteq> j" by auto
    with Cons.IH [OF rest Cons.prems(2)] show ?thesis by simp
  next
    case True
    obtain c1 m1 where step: "call_step lc (cs ! i) m = (c1, m1)"
      by (cases "call_step lc (cs ! i) m")
    with True Cons.prems(1) have rest: "run_calls lc sched (cs[i := c1], m1) = (cs', m')"
      by simp
    from Cons.prems(2) have j: "j < length (cs[i := c1])" by simp
    note ih = Cons.IH [OF rest j]
    show ?thesis
    proof (cases "i = j")
      case False
      with ih show ?thesis by simp
    next
      case same: True
      from call_step_stage [of "cs ! i" lc m] step
      have "min 3 (Suc (stage (cs ! i))) \<le> stage c1" by simp
      with ih same True show ?thesis by simp
    qed
  qed
qed

lemma sum_list_pending_update:
  assumes "i < length cs"
  shows "sum_list (map f (cs[i := c])) + f (cs ! i) = sum_list (map f cs) + (f c :: nat)"
  using assms
proof (induction cs arbitrary: i)
  case Nil
  then show ?case by simp
next
  case (Cons x cs)
  show ?case
  proof (cases i)
    case 0
    then show ?thesis by simp
  next
    case (Suc k)
    with Cons.prems have "k < length cs" by simp
    from Cons.IH [OF this] Suc show ?thesis by simp
  qed
qed

lemma run_calls_pending:
  assumes "run_calls lc sched (cs, m) = (cs', m')"
  shows "count_list (calls m') t + sum_list (map (pending t) cs') \<le>
         count_list (calls m) t + sum_list (map (pending t) cs)"
  using assms
proof (induction sched arbitrary: cs m)
  case Nil
  then show ?case by simp
next
  case (Cons i sched)
  show ?case
  proof (cases "i < length cs")
    case False
    with Cons.prems have "run_calls lc sched (cs, m) = (cs', m')" by simp
    from Cons.IH [OF this] show ?thesis .
  next
    case True
    obtain c1 m1 where step: "call_step lc (cs ! i) m = (c1, m1)"
      by (cases "call_step lc (cs ! i) m")
    with True Cons.prems have rest: "run_calls lc sched (cs[i := c1], m1) = (cs', m')"
      by simp
    note ih = Cons.IH [OF rest]
    from call_step_pending [of lc "cs ! i" m t] step
    have one: "count_list (calls m1) t + pending t c1 \<le> count_list (calls m) t + pending t (cs ! i)"
      by simp
    from sum_list_pending_update [OF True, of "pending t" c1]
    have upd: "sum_list (map (pending t) (cs[i := c1])) + pending t (cs ! i) =
      sum_list (map (pending t) cs) + pending t c1" .
    from ih one upd show ?thesis by linarith
  qed
qed

lemma pending_start: "sum_list (map (pending t) (map Start tags)) = count_list tags t"
  by (induction tags) (simp_all add: pending_def)

lemma run_calls_oracle_bound:
  assumes "run_calls lc sched (map Start tags, memo_empty) = (cs', m')"
  shows "count_list (calls m') t \<le> count_list tags t"
proof -
  from run_calls_pending [OF assms, of t]
  have "count_list (calls m') t + sum_list (map (pending t) cs') \<le> 0 + count_list tags t"
    unfolding pending_start by (simp add: memo_empty_def)
  then show ?thesis by simp
qed

lemma stage_finished: "3 \<le> stage c \<Longrightarrow> \<exists>t r. c = Finished t r"
  by (cases c) simp_all

lemma run_calls_finishes:
  assumes "run_calls lc sched (map Start tags, memo_empty) = (cs', m')"
    and "i < length tags" and "3 \<le> count_list sched i"
  shows "cs' ! i = Finished (tags ! i) (validated_lang_body lc (tags ! i))"
proof -
  from assms(2) have i: "i < length (map Start tags)" by simp
  from run_calls_progress [OF assms(1) i] assms(3)
  have "3 \<le> stage (cs' ! i)" by simp
  then obtain t r where f: "cs' ! i = Finished t r" by (auto dest: stage_finished)
  from run_calls_results [OF assms(1)] assms(2) f
  have "t = tags ! i \<and> r = validated_lang_body lc t" by auto
  with f show ?thesis by simp
qed

lemma run_two_overlapping:
  "run_calls demo_lc [0, 1, 0, 1, 0, 1] ([Start ''de'', Start ''de''], memo_empty) =
     ([Finished ''de'' (Some ''de''), Finished ''de'' (Some ''de'')],
      \<lparr>cache = [''de'' \<mapsto> Some ''de''], calls = [''de'', ''de'']\<rparr>)"
  by (simp add: call_step_def memo_empty_def demo_valid)

lemma run_two_in_turn:
  "run_calls demo_lc [0, 0, 0, 1] ([Start ''de'', Start ''de''], memo_empty) =
     ([Finished ''de'' (Some ''de''), Finished ''de'' (Some ''de'')],
      \<lparr>cache = [''de'' \<mapsto> Some ''de''], calls = [''de'']\<rparr>)"
  by (simp add: call_step_def memo_empty_def demo_valid)

text \<open>
  C8, as the code has it. For calls made one after the other: at any point of a run,
  that is after any sequence of validations that started with the empty cache,
  validating a string twice gives the same answer both times, which is the answer of
  the body; the second call leaves the state as it is, and after it the body has run
  exactly once for that string in the whole run. Such a call is three steps of
  \<^const>\<open>call_step\<close> with no step of another call in between. When
  \<^verbatim>\<open>Language.get\<close> or \<^verbatim>\<open>is_valid\<close> raises, the answer is \<^verbatim>\<open>None\<close>: the function
  returns a value in every case.

  For calls that overlap, under every schedule from the empty cache: a call that has
  returned has returned the answer of the body for its own string; a call that has
  taken three steps has returned; and the body has run for a string at most as many
  times as there are calls for that string.
\<close>

theorem validated_lang_memoized:
  assumes "validate_all lc ts memo_empty = (rs, m)"
    and "validated_lang lc tag m = (r1, m1)"
    and "validated_lang lc tag m1 = (r2, m2)"
    and "run_calls lc sched (map Start tags, memo_empty) = (cs, mc)"
  shows "rs = map (validated_lang_body lc) ts \<and>
    r1 = validated_lang_body lc tag \<and> r2 = r1 \<and> m2 = m1 \<and>
    count_list (calls m2) tag = 1 \<and>
    ((\<exists>e. Language_get lc tag = Inl e) \<longrightarrow> r1 = None) \<and>
    (\<forall>l e. Language_get lc tag = Inr l \<and> is_valid lc l = Inl e \<longrightarrow> r1 = None) \<and>
    (case call_step lc (Start tag) m of
       (c1, n1) \<Rightarrow> (case call_step lc c1 n1 of
         (c2, n2) \<Rightarrow> call_step lc c2 n2)) = (Finished tag r1, m1) \<and>
    length cs = length tags \<and>
    (\<forall>i t r. i < length tags \<and> cs ! i = Finished t r \<longrightarrow>
       t = tags ! i \<and> r = validated_lang_body lc t) \<and>
    (\<forall>i. i < length tags \<and> 3 \<le> count_list sched i \<longrightarrow>
       cs ! i = Finished (tags ! i) (validated_lang_body lc (tags ! i))) \<and>
    (\<forall>t. count_list (calls mc) t \<le> count_list tags t)"
proof -
  from validate_all_ok [OF memo_ok_empty assms(1)]
  have ok: "memo_ok lc m" and rs: "rs = map (validated_lang_body lc) ts" by simp_all
  from validated_lang_transparent [OF ok, of tag] assms(2)
  have r1: "r1 = validated_lang_body lc tag" and ok1: "memo_ok lc m1" by simp_all
  from validated_lang_again [OF assms(2)] assms(3) have again: "r2 = r1" "m2 = m1" by simp_all
  from validated_lang_cached [of lc tag m] assms(2) have "tag \<in> dom (cache m1)" by auto
  with ok1 have "tag \<in> set (calls m1)" and "distinct (calls m1)" by (auto simp: memo_ok_def)
  then have "count_list (calls m1) tag = 1" by (simp add: distinct_count_list_1)
  with again have once: "count_list (calls m2) tag = 1" by simp
  have raise1: "(\<exists>e. Language_get lc tag = Inl e) \<longrightarrow> r1 = None"
    using r1 by (auto simp: validated_lang_body_def)
  have raise2: "\<forall>l e. Language_get lc tag = Inr l \<and> is_valid lc l = Inl e \<longrightarrow> r1 = None"
    using r1 by (auto simp: validated_lang_body_def)
  from assms(2) have steps: "(case call_step lc (Start tag) m of
       (c1, n1) \<Rightarrow> (case call_step lc c1 n1 of
         (c2, n2) \<Rightarrow> call_step lc c2 n2)) = (Finished tag r1, m1)"
    by (rule iffD1 [OF validated_lang_steps])
  from run_calls_results [OF assms(4)]
  have len: "length cs = length tags"
    and res: "\<forall>i t r. i < length cs \<and> cs ! i = Finished t r \<longrightarrow>
       t = tags ! i \<and> r = validated_lang_body lc t" by simp_all
  from res len have res': "\<forall>i t r. i < length tags \<and> cs ! i = Finished t r \<longrightarrow>
       t = tags ! i \<and> r = validated_lang_body lc t" by simp
  have fin: "\<forall>i. i < length tags \<and> 3 \<le> count_list sched i \<longrightarrow>
       cs ! i = Finished (tags ! i) (validated_lang_body lc (tags ! i))"
    using run_calls_finishes [OF assms(4)] by blast
  have bound: "\<forall>t. count_list (calls mc) t \<le> count_list tags t"
    using run_calls_oracle_bound [OF assms(4)] by blast
  show ?thesis
    by (intro conjI)
      (rule rs, rule r1, rule again(1), rule again(2), rule once, rule raise1, rule raise2,
       rule steps, rule len, rule res', rule fin, rule bound)
qed

theorem validated_lang_memoized_witness:
  "validate_all demo_lc [''de''] memo_empty =
     ([Some ''de''], \<lparr>cache = [''de'' \<mapsto> Some ''de''], calls = [''de'']\<rparr>) \<and>
   validated_lang demo_lc ''zz'' \<lparr>cache = [''de'' \<mapsto> Some ''de''], calls = [''de'']\<rparr> =
     (None, \<lparr>cache = [''de'' \<mapsto> Some ''de'', ''zz'' \<mapsto> None], calls = [''de'', ''zz'']\<rparr>) \<and>
   validated_lang demo_lc ''zz''
       \<lparr>cache = [''de'' \<mapsto> Some ''de'', ''zz'' \<mapsto> None], calls = [''de'', ''zz'']\<rparr> =
     (None, \<lparr>cache = [''de'' \<mapsto> Some ''de'', ''zz'' \<mapsto> None], calls = [''de'', ''zz'']\<rparr>) \<and>
   Language_get demo_lc ''zz'' = Inl (OtherException ''LanguageTagError'') \<and>
   count_list [''de'', ''zz''] ''zz'' = 1 \<and>
   validated_lang demo_lc ''qq'' \<lparr>cache = [''de'' \<mapsto> Some ''de''], calls = [''de'']\<rparr> =
     (None, \<lparr>cache = [''de'' \<mapsto> Some ''de'', ''qq'' \<mapsto> None], calls = [''de'', ''qq'']\<rparr>) \<and>
   validated_lang demo_lc ''qq''
       \<lparr>cache = [''de'' \<mapsto> Some ''de'', ''qq'' \<mapsto> None], calls = [''de'', ''qq'']\<rparr> =
     (None, \<lparr>cache = [''de'' \<mapsto> Some ''de'', ''qq'' \<mapsto> None], calls = [''de'', ''qq'']\<rparr>) \<and>
   Language_get demo_lc ''qq'' = Inr ''qq'' \<and>
   is_valid demo_lc ''qq'' = Inl (OtherException ''LookupError'') \<and>
   count_list [''de'', ''qq''] ''qq'' = 1 \<and>
   run_calls demo_lc [0, 0, 0, 1] (map Start [''de'', ''de''], memo_empty) =
     ([Finished ''de'' (Some ''de''), Finished ''de'' (Some ''de'')],
      \<lparr>cache = [''de'' \<mapsto> Some ''de''], calls = [''de'']\<rparr>) \<and>
   (0::nat) < length [''de'', ''de''] \<and> 3 \<le> count_list [0, 0, 0, 1::nat] 0 \<and>
   [Finished ''de'' (Some ''de''), Finished ''de'' (Some ''de'')] ! 0 =
     Finished ''de'' (validated_lang_body demo_lc ''de'') \<and>
   count_list [''de''] ''de'' \<le> count_list [''de'', ''de''] ''de''"
proof -
  have h: "validate_all demo_lc [''de''] memo_empty =
     ([Some ''de''], \<lparr>cache = [''de'' \<mapsto> Some ''de''], calls = [''de'']\<rparr>)"
    by (simp add: validated_lang_def memo_empty_def demo_valid Let_def)
  have z1: "validated_lang demo_lc ''zz'' \<lparr>cache = [''de'' \<mapsto> Some ''de''], calls = [''de'']\<rparr> =
     (None, \<lparr>cache = [''de'' \<mapsto> Some ''de'', ''zz'' \<mapsto> None], calls = [''de'', ''zz'']\<rparr>)"
    by (simp add: validated_lang_def demo_valid Let_def)
  have z2: "validated_lang demo_lc ''zz''
       \<lparr>cache = [''de'' \<mapsto> Some ''de'', ''zz'' \<mapsto> None], calls = [''de'', ''zz'']\<rparr> =
     (None, \<lparr>cache = [''de'' \<mapsto> Some ''de'', ''zz'' \<mapsto> None], calls = [''de'', ''zz'']\<rparr>)"
    by (simp add: validated_lang_def)
  have q1: "validated_lang demo_lc ''qq'' \<lparr>cache = [''de'' \<mapsto> Some ''de''], calls = [''de'']\<rparr> =
     (None, \<lparr>cache = [''de'' \<mapsto> Some ''de'', ''qq'' \<mapsto> None], calls = [''de'', ''qq'']\<rparr>)"
    by (simp add: validated_lang_def demo_valid Let_def)
  have q2: "validated_lang demo_lc ''qq''
       \<lparr>cache = [''de'' \<mapsto> Some ''de'', ''qq'' \<mapsto> None], calls = [''de'', ''qq'']\<rparr> =
     (None, \<lparr>cache = [''de'' \<mapsto> Some ''de'', ''qq'' \<mapsto> None], calls = [''de'', ''qq'']\<rparr>)"
    by (simp add: validated_lang_def)
  have g: "Language_get demo_lc ''zz'' = Inl (OtherException ''LanguageTagError'')"
    "Language_get demo_lc ''qq'' = Inr ''qq''"
    "is_valid demo_lc ''qq'' = Inl (OtherException ''LookupError'')"
    by (simp_all add: demo_lc_def)
  have c: "run_calls demo_lc [0, 0, 0, 1] (map Start [''de'', ''de''], memo_empty) =
     ([Finished ''de'' (Some ''de''), Finished ''de'' (Some ''de'')],
      \<lparr>cache = [''de'' \<mapsto> Some ''de''], calls = [''de'']\<rparr>)"
    using run_two_in_turn by simp
  have n: "(0::nat) < length [''de'', ''de'']" "3 \<le> count_list [0, 0, 0, 1::nat] 0"
    by simp_all
  note tz = validated_lang_memoized [OF h z1 z2 c]
  note tq = validated_lang_memoized [OF h q1 q2 c]
  from tz have "count_list
      (calls \<lparr>cache = [''de'' \<mapsto> Some ''de'', ''zz'' \<mapsto> None], calls = [''de'', ''zz'']\<rparr>)
      ''zz'' = 1"
    by (elim conjE)
  then have cz: "count_list [''de'', ''zz''] ''zz'' = 1" by (simp only: memo.simps)
  from tq have "count_list
      (calls \<lparr>cache = [''de'' \<mapsto> Some ''de'', ''qq'' \<mapsto> None], calls = [''de'', ''qq'']\<rparr>)
      ''qq'' = 1"
    by (elim conjE)
  then have cq: "count_list [''de'', ''qq''] ''qq'' = 1" by (simp only: memo.simps)
  from tz have "\<forall>i. i < length [''de'', ''de''] \<and> 3 \<le> count_list [0, 0, 0, 1::nat] i \<longrightarrow>
      [Finished ''de'' (Some ''de''), Finished ''de'' (Some ''de'')] ! i =
      Finished ([''de'', ''de''] ! i) (validated_lang_body demo_lc ([''de'', ''de''] ! i))"
    by (elim conjE)
  then have "0 < length [''de'', ''de''] \<and> 3 \<le> count_list [0, 0, 0, 1::nat] 0 \<longrightarrow>
      [Finished ''de'' (Some ''de''), Finished ''de'' (Some ''de'')] ! 0 =
      Finished ([''de'', ''de''] ! 0) (validated_lang_body demo_lc ([''de'', ''de''] ! 0))"
    by (rule spec)
  with n have f0: "[Finished ''de'' (Some ''de''), Finished ''de'' (Some ''de'')] ! 0 =
      Finished ''de'' (validated_lang_body demo_lc ''de'')" by simp
  from tz have "\<forall>t. count_list
      (calls \<lparr>cache = [''de'' \<mapsto> Some ''de''], calls = [''de'']\<rparr>) t \<le>
      count_list [''de'', ''de''] t"
    by (elim conjE)
  then have "count_list
      (calls \<lparr>cache = [''de'' \<mapsto> Some ''de''], calls = [''de'']\<rparr>) ''de'' \<le>
      count_list [''de'', ''de''] ''de''"
    by (rule spec)
  then have cb: "count_list [''de''] ''de'' \<le> count_list [''de'', ''de''] ''de''"
    by (simp only: memo.simps)
  show ?thesis
    by (intro conjI)
      (rule h, rule z1, rule z2, rule g(1), rule cz, rule q1, rule q2, rule g(2), rule g(3),
       rule cq, rule c, rule n(1), rule n(2), rule f0, rule cb)
qed

text \<open>
  C8, as the claim states it ("the underlying oracle is invoked only once for that
  string"), fails for calls that overlap: two threads validate \<open>de\<close>, both look the
  key up before either has stored a result, both run the body, and the log of the
  oracle holds \<open>de\<close> twice. Both calls return the same answer.
\<close>

theorem overlapping_calls_run_oracle_twice:
  "run_calls demo_lc [0, 1, 0, 1, 0, 1] (map Start [''de'', ''de''], memo_empty) =
     ([Finished ''de'' (Some ''de''), Finished ''de'' (Some ''de'')],
      \<lparr>cache = [''de'' \<mapsto> Some ''de''], calls = [''de'', ''de'']\<rparr>) \<and>
   count_list
     (calls (snd (run_calls demo_lc [0, 1, 0, 1, 0, 1] (map Start [''de'', ''de''], memo_empty))))
     ''de'' = 2"
  using run_two_overlapping by simp

section \<open>The report of \<^verbatim>\<open>report_mode\<close>\<close>

lemma update_fresh: "k \<notin> fst ` set al \<Longrightarrow> AList.update k v al = al @ [(k, v)]"
  by (induction al) auto

lemma add_codes_both:
  assumes "res ''oci'' = Some v1" and "res ''kab'' = Some v2"
    and "(site_n, dev_n, ''oci'') \<notin> fst ` set report"
    and "(site_n, dev_n, ''kab'') \<notin> fst ` set report"
  shows "add_codes site_n dev_n res [''oci'', ''kab''] report =
    Inr (report @ [((site_n, dev_n, ''oci''), v1), ((site_n, dev_n, ''kab''), v2)])"
proof -
  have 1: "AList.update (site_n, dev_n, ''oci'') v1 report = report @ [((site_n, dev_n, ''oci''), v1)]"
    using assms(3) by (rule update_fresh)
  have "(site_n, dev_n, ''kab'') \<notin> fst ` set (report @ [((site_n, dev_n, ''oci''), v1)])"
    using assms(4) by simp
  then have 2: "AList.update (site_n, dev_n, ''kab'') v2 (report @ [((site_n, dev_n, ''oci''), v1)]) =
    (report @ [((site_n, dev_n, ''oci''), v1)]) @ [((site_n, dev_n, ''kab''), v2)]"
    by (rule update_fresh)
  show ?thesis by (simp add: assms(1,2) 1 2)
qed

lemma collect_fresh:
  assumes "\<And>jr. jr \<in> set jrs \<Longrightarrow> \<exists>sk dk site_n dev_n res v1 v2.
      jr = (sk, dk, site_n, dev_n, res) \<and> res ''oci'' = Some v1 \<and> res ''kab'' = Some v2"
    and "distinct (map job_name jrs)"
    and "\<And>jr code. jr \<in> set jrs \<Longrightarrow> (fst (job_name jr), snd (job_name jr), code) \<notin> fst ` set report0"
  shows "collect (map Inr jrs) report0 = Inr (report0 @ concat (map job_entries jrs))"
  using assms
proof (induction jrs arbitrary: report0)
  case Nil
  then show ?case by simp
next
  case (Cons jr jrs)
  from Cons.prems(1) [of jr] obtain sk dk site_n dev_n res v1 v2 where
    jr: "jr = (sk, dk, site_n, dev_n, res)" and v1: "res ''oci'' = Some v1"
    and v2: "res ''kab'' = Some v2" by auto
  have name: "job_name jr = (site_n, dev_n)" by (simp add: jr job_name_def)
  have ent: "job_entries jr = [((site_n, dev_n, ''oci''), v1), ((site_n, dev_n, ''kab''), v2)]"
    by (simp add: jr job_entries_def v1 v2)
  from Cons.prems(3) [of jr] name
  have fresh: "(site_n, dev_n, ''oci'') \<notin> fst ` set report0"
    "(site_n, dev_n, ''kab'') \<notin> fst ` set report0" by simp_all
  note step = add_codes_both [OF v1 v2 fresh]
  have rest: "collect (map Inr jrs) (report0 @ job_entries jr) =
    Inr ((report0 @ job_entries jr) @ concat (map job_entries jrs))"
  proof (rule Cons.IH)
    show "\<exists>sk dk site_n dev_n res v1 v2.
      x = (sk, dk, site_n, dev_n, res) \<and> res ''oci'' = Some v1 \<and> res ''kab'' = Some v2"
      if "x \<in> set jrs" for x using Cons.prems(1) [of x] that by simp
    show "distinct (map job_name jrs)" using Cons.prems(2) by simp
    show "(fst (job_name x), snd (job_name x), code) \<notin> fst ` set (report0 @ job_entries jr)"
      if "x \<in> set jrs" for x code
    proof -
      from Cons.prems(2) have "job_name jr \<notin> job_name ` set jrs" by simp
      with that have "job_name x \<noteq> job_name jr" by (metis imageI)
      then have "job_name x \<noteq> (site_n, dev_n)" unfolding name .
      with Cons.prems(3) [of x code] that show ?thesis
        by (auto simp: ent)
    qed
  qed
  have "collect (map Inr (jr # jrs)) report0 =
      (case add_codes site_n dev_n res [''oci'', ''kab''] report0 of
         Inl e \<Rightarrow> Inl e
       | Inr report' \<Rightarrow> collect (map Inr jrs) report')"
    by (simp only: jr list.map collect.simps sum.case prod.case)
  also have "\<dots> = collect (map Inr jrs) (report0 @ job_entries jr)"
    by (simp only: step sum.case ent)
  also note rest
  finally show ?case by simp
qed


lemma collect_Inr_map: "collect futs report0 = Inr report \<Longrightarrow> \<exists>jrs. futs = map Inr jrs"
proof (induction futs arbitrary: report0)
  case Nil
  then show ?case by simp
next
  case (Cons fut futs)
  from Cons.prems obtain jr where fut: "fut = Inr jr" by (cases fut) simp_all
  obtain sk dk site_n dev_n res where jr: "jr = (sk, dk, site_n, dev_n, res)"
    by (cases jr)
  from Cons.prems fut jr obtain report' where
    "collect futs report' = Inr report" by (auto split: sum.splits)
  from Cons.IH [OF this] obtain jrs where "futs = map Inr jrs" ..
  with fut have "fut # futs = map Inr (jr # jrs)" by simp
  then show ?case ..
qed

lemma job_shape:
  assumes "job lc sess sk dk loose = Inr jr"
  shows "\<exists>site_n site_u dev_n ua res.
    map_of SITES sk = Some (site_n, site_u) \<and> map_of DEVICES dk = Some (dev_n, ua) \<and>
    test_one lc sess site_u ua loose = Inr res \<and> jr = (sk, dk, site_n, dev_n, res)"
  using assms by (auto simp: job_def split: option.splits sum.splits)

lemma job_result_good:
  assumes "job lc sess sk dk loose = Inr jr"
  shows "job_name jr = combo_name (sk, dk)"
    and "\<exists>sk' dk' site_n dev_n res v1 v2.
      jr = (sk', dk', site_n, dev_n, res) \<and> res ''oci'' = Some v1 \<and> res ''kab'' = Some v2"
proof -
  from job_shape [OF assms] obtain site_n site_u dev_n ua res where
    s: "map_of SITES sk = Some (site_n, site_u)" and d: "map_of DEVICES dk = Some (dev_n, ua)"
    and t: "test_one lc sess site_u ua loose = Inr res" and jr: "jr = (sk, dk, site_n, dev_n, res)"
    by blast
  show "job_name jr = combo_name (sk, dk)"
    by (simp add: jr job_name_def combo_name_def s d)
  have "''oci'' \<in> fst ` set CODES" and "''kab'' \<in> fst ` set CODES" by (simp_all add: CODES_def)
  with test_one_lookup [OF t] obtain v1 v2 where "res ''oci'' = Some v1" "res ''kab'' = Some v2"
    by blast
  with jr show "\<exists>sk' dk' site_n dev_n res v1 v2.
      jr = (sk', dk', site_n, dev_n, res) \<and> res ''oci'' = Some v1 \<and> res ''kab'' = Some v2"
    by blast
qed

lemma report_mode_shape:
  assumes "report_mode lc sess loose order = Inr (report, coll)"
    and "distinct (map combo_name order)"
  shows "\<exists>jrs. map (\<lambda>(sk, dk). job lc sess sk dk loose) order = map Inr jrs \<and>
    map job_name jrs = map combo_name order \<and>
    report = concat (map job_entries jrs) \<and> coll = collisions report"
proof -
  let ?futs = "map (\<lambda>(sk, dk). job lc sess sk dk loose) order"
  from assms(1) have c: "collect ?futs [] = Inr report" and coll: "coll = collisions report"
    by (auto simp: report_mode_def split: sum.splits)
  from collect_Inr_map [OF c] obtain jrs where jrs: "?futs = map Inr jrs" ..
  then have len: "length jrs = length order" by (metis length_map)
  have nth: "job lc sess (fst (order ! i)) (snd (order ! i)) loose = Inr (jrs ! i)"
    if "i < length order" for i
  proof -
    from that have a: "?futs ! i = job lc sess (fst (order ! i)) (snd (order ! i)) loose"
      by (simp add: case_prod_beta)
    from that len have b: "map Inr jrs ! i = Inr (jrs ! i)" by simp
    have "job lc sess (fst (order ! i)) (snd (order ! i)) loose = ?futs ! i"
      by (rule a [symmetric])
    also have "\<dots> = map Inr jrs ! i" by (simp only: jrs)
    also note b
    finally show ?thesis .
  qed
  have names: "map job_name jrs = map combo_name order"
  proof (rule nth_equalityI)
    show "length (map job_name jrs) = length (map combo_name order)" using len by simp
    fix i assume "i < length (map job_name jrs)"
    with len have i: "i < length order" by simp
    from job_result_good(1) [OF nth [OF i]] i len
    show "map job_name jrs ! i = map combo_name order ! i" by simp
  qed
  have good: "\<exists>sk dk site_n dev_n res v1 v2.
      jr = (sk, dk, site_n, dev_n, res) \<and> res ''oci'' = Some v1 \<and> res ''kab'' = Some v2"
    if "jr \<in> set jrs" for jr
  proof -
    from that obtain i where i: "i < length jrs" and jr: "jr = jrs ! i"
      by (auto simp: in_set_conv_nth)
    from i len have "i < length order" by simp
    from job_result_good(2) [OF nth [OF this]] jr show ?thesis by simp
  qed
  have "collect (map Inr jrs) [] = Inr ([] @ concat (map job_entries jrs))"
  proof (rule collect_fresh)
    show "\<exists>sk dk site_n dev_n res v1 v2.
      jr = (sk, dk, site_n, dev_n, res) \<and> res ''oci'' = Some v1 \<and> res ''kab'' = Some v2"
      if "jr \<in> set jrs" for jr using that by (rule good)
    show "distinct (map job_name jrs)" using assms(2) names by simp
    show "(fst (job_name jr), snd (job_name jr), code) \<notin> fst ` set []" for jr code by simp
  qed
  with c jrs have "report = concat (map job_entries jrs)" by simp
  with jrs names coll show ?thesis by blast
qed

lemma length_target_keys: "length (concat (map target_keys ns)) = 2 * length ns"
  by (induction ns) (auto simp: target_keys_def)

lemma set_target_keys:
  "set (concat (map target_keys ns)) =
     {(s, d, c). (s, d) \<in> set ns \<and> (c = ''oci'' \<or> c = ''kab'')}"
  by (induction ns) (auto simp: target_keys_def)

lemma distinct_target_keys: "distinct ns \<Longrightarrow> distinct (concat (map target_keys ns))"
proof (induction ns)
  case Nil
  then show ?case by simp
next
  case (Cons n ns)
  obtain s d where n: "n = (s, d)" by (cases n)
  from Cons.prems have "(s, d) \<notin> set ns" by (simp add: n)
  then have "set (target_keys n) \<inter> set (concat (map target_keys ns)) = {}"
    unfolding set_target_keys by (auto simp: n target_keys_def)
  moreover have "distinct (target_keys n)" by (simp add: n target_keys_def)
  moreover from Cons have "distinct (concat (map target_keys ns))" by simp
  ultimately show ?case by simp
qed

lemma keys_job_entries:
  assumes "jr = (sk, dk, site_n, dev_n, res)" and "res ''oci'' = Some v1" and "res ''kab'' = Some v2"
  shows "map fst (job_entries jr) = target_keys (job_name jr)"
  using assms by (simp add: job_entries_def job_name_def target_keys_def)

lemma distinct_combo_names: "distinct (map combo_name combos)"
  by (simp add: combos_def combo_name_def SITES_def DEVICES_def)

lemma set_combo_names:
  "set (map combo_name combos) =
     {(''DuckDuckGo'', ''desktop''), (''DuckDuckGo'', ''mobile''),
      (''Nextcloud'', ''desktop''), (''Nextcloud'', ''mobile'')}"
  by (simp add: combos_def combo_name_def SITES_def DEVICES_def)

lemma set_collisions: "set (collisions report) = {k. \<exists>g. (k, ''collision'', g) \<in> set report}"
  by (auto simp: collisions_def image_iff)

section \<open>The batch on the concrete servers\<close>

lemma test_code_sess_cong:
  assumes "sess url = sess' url'"
  shows "test_code lc sess url ua loose code = test_code lc sess' url' ua loose code"
  by (simp add: test_code_def assms)

lemma test_loop_sess_cong:
  assumes "sess url = sess' url'"
  shows "test_loop lc sess url ua loose items results =
    test_loop lc sess' url' ua loose items results"
proof (induction items arbitrary: results)
  case Nil
  show ?case by simp
next
  case (Cons item items)
  obtain c n where item: "item = (c, n)" by (cases item)
  show ?case
    unfolding item test_loop.simps test_code_sess_cong [of sess url sess' url', OF assms]
    by (cases "test_code lc sess' url' ua loose c") (simp_all only: sum.case Cons.IH)
qed

lemma test_one_sess_cong:
  assumes "sess url = sess' url'"
  shows "test_one lc sess url ua loose = test_one lc sess' url' ua loose"
  unfolding test_one_def by (rule test_loop_sess_cong [of sess url sess' url', OF assms])

lemma calm_sess_nextcloud:
  "calm_sess ''https://demo2.nextcloud.com/index.php/login '' =
     demo_sess ''https://variant.example/''"
  by (rule ext, rule ext) (simp add: calm_sess_def variant_sess)

lemma calm_sess_duck:
  "calm_sess ''https://duckduckgo.com/q=test '' = demo_sess ''https://duckduckgo.com/q=test ''"
  by (rule ext, rule ext) (simp add: calm_sess_def)

lemma calm_test_one:
  "test_one demo_lc calm_sess ''https://demo2.nextcloud.com/index.php/login '' ua loose =
     Inr variant_results"
  "test_one demo_lc calm_sess ''https://duckduckgo.com/q=test '' ua loose =
     Inr (demo_results loose)"
  by (simp_all only:
      test_one_sess_cong [of calm_sess "''https://demo2.nextcloud.com/index.php/login ''"
        demo_sess "''https://variant.example/''", OF calm_sess_nextcloud]
      test_one_sess_cong [of calm_sess "''https://duckduckgo.com/q=test ''"
        demo_sess "''https://duckduckgo.com/q=test ''", OF calm_sess_duck]
      variant_test_one demo_test_one [unfolded demo_url_def])

lemma crash_test_one:
  "test_one lc demo_sess ''https://demo2.nextcloud.com/index.php/login '' ua loose =
     Inl (OtherException ''boom'')"
  by (simp add: test_one_def CODES_def test_code_def demo_sess_def)

lemma calm_job:
  "job demo_lc calm_sess ''1'' ''1'' loose =
     Inr (''1'', ''1'', ''DuckDuckGo'', ''desktop'', demo_results loose)"
  "job demo_lc calm_sess ''1'' ''2'' loose =
     Inr (''1'', ''2'', ''DuckDuckGo'', ''mobile'', demo_results loose)"
  "job demo_lc calm_sess ''2'' ''1'' loose =
     Inr (''2'', ''1'', ''Nextcloud'', ''desktop'', variant_results)"
  "job demo_lc calm_sess ''2'' ''2'' loose =
     Inr (''2'', ''2'', ''Nextcloud'', ''mobile'', variant_results)"
  by (simp_all add: job_def SITES_def DEVICES_def calm_test_one)

lemma demo_job:
  "job demo_lc demo_sess ''1'' ''1'' loose =
     Inr (''1'', ''1'', ''DuckDuckGo'', ''desktop'', demo_results loose)"
  "job demo_lc demo_sess ''1'' ''2'' loose =
     Inr (''1'', ''2'', ''DuckDuckGo'', ''mobile'', demo_results loose)"
  "job demo_lc demo_sess ''2'' ''1'' loose = Inl (OtherException ''boom'')"
  "job demo_lc demo_sess ''2'' ''2'' loose = Inl (OtherException ''boom'')"
  by (simp_all add: job_def SITES_def DEVICES_def crash_test_one demo_test_one [unfolded demo_url_def])

lemma results_of_interest:
  "demo_results loose ''oci'' = Some (''alt'', ''oc'')"
  "demo_results loose ''kab'' = Some (''alt'', ''kab'')"
  "variant_results ''oci'' = Some (''collision'', ''kab-Latn'')"
  "variant_results ''kab'' = Some (''alt'', ''kab-Latn'')"
  by (simp_all add: demo_results_def variant_results_def)

lemma calm_report_mode:
  "report_mode demo_lc calm_sess False batch_order =
     Inr (batch_report, [(''Nextcloud'', ''desktop'', ''oci''), (''Nextcloud'', ''mobile'', ''oci'')])"
  by (simp add: report_mode_def batch_order_def calm_job results_of_interest batch_report_def
      collisions_def)

lemma crash_report_mode:
  "report_mode demo_lc demo_sess False combos = Inl (OtherException ''boom'')"
  by (simp add: report_mode_def combos_def demo_job results_of_interest)

section \<open>Two entries for every target\<close>

text \<open>
  C9. A run of \<^verbatim>\<open>report_mode\<close> that completes, the four jobs finishing in any order
  (\<open>order\<close> is a permutation of \<^const>\<open>combos\<close>), has a report of exactly two entries
  for each of the four targets, eight in all: the keys are distinct and are exactly the
  triples of a site name, a device name and one of \<open>oci\<close> and \<open>kab\<close>; the entry of a
  target and a code is what the job of that target found for the code, whatever the
  order; and the collisions are exactly the keys of the report whose label is
  \<open>collision\<close>.
\<close>

theorem report_two_entries_per_target:
  assumes "mset order = mset combos"
    and "report_mode lc sess loose order = Inr (report, coll)"
  shows "length report = 2 * length combos \<and> length report = 8 \<and>
    distinct (map fst report) \<and>
    set (map fst report) =
      {(s, d, c). (s = ''DuckDuckGo'' \<or> s = ''Nextcloud'') \<and> (d = ''desktop'' \<or> d = ''mobile'') \<and>
         (c = ''oci'' \<or> c = ''kab'')} \<and>
    (\<forall>sk dk sk' dk' site_n dev_n res code.
        (sk, dk) \<in> set combos \<and> job lc sess sk dk loose = Inr (sk', dk', site_n, dev_n, res) \<and>
        (code = ''oci'' \<or> code = ''kab'') \<longrightarrow>
        map_of report (site_n, dev_n, code) = res code) \<and>
    coll = map fst (filter (\<lambda>e. fst (snd e) = ''collision'') report) \<and>
    set coll = {k. \<exists>g. (k, ''collision'', g) \<in> set report}"
proof -
  from assms(1) have names_mset: "mset (map combo_name order) = mset (map combo_name combos)"
    by simp
  from mset_eq_imp_distinct_iff [OF names_mset] distinct_combo_names
  have dn: "distinct (map combo_name order)" by simp
  from names_mset have sn: "set (map combo_name order) = set (map combo_name combos)"
    by (rule mset_eq_setD)
  from assms(1) have len: "length order = length combos" by (rule mset_eq_length)
  from assms(1) have so: "set order = set combos" by (rule mset_eq_setD)
  from report_mode_shape [OF assms(2) dn] obtain jrs where
    futs: "map (\<lambda>(sk, dk). job lc sess sk dk loose) order = map Inr jrs"
    and names: "map job_name jrs = map combo_name order"
    and report: "report = concat (map job_entries jrs)"
    and coll: "coll = collisions report" by blast
  have good: "\<exists>sk' dk' site_n dev_n res v1 v2.
      jr = (sk', dk', site_n, dev_n, res) \<and> res ''oci'' = Some v1 \<and> res ''kab'' = Some v2"
    if "jr \<in> set jrs" for jr
  proof -
    from that have "Inr jr \<in> set (map (\<lambda>(sk, dk). job lc sess sk dk loose) order)"
      unfolding futs by simp
    then obtain sk dk where "job lc sess sk dk loose = Inr jr" by auto
    then show ?thesis by (rule job_result_good(2))
  qed
  have "map (map fst \<circ> job_entries) jrs = map (target_keys \<circ> job_name) jrs"
  proof (rule map_cong [OF refl])
    fix jr assume "jr \<in> set jrs"
    from good [OF this] obtain sk' dk' site_n dev_n res v1 v2 where
      "jr = (sk', dk', site_n, dev_n, res)" "res ''oci'' = Some v1" "res ''kab'' = Some v2"
      by blast
    then show "(map fst \<circ> job_entries) jr = (target_keys \<circ> job_name) jr"
      using keys_job_entries by simp
  qed
  then have "concat (map (map fst \<circ> job_entries) jrs) = concat (map (target_keys \<circ> job_name) jrs)"
    by (rule arg_cong)
  then have "map fst report = concat (map target_keys (map job_name jrs))"
    unfolding report by (simp only: map_concat map_map)
  then have keys: "map fst report = concat (map target_keys (map combo_name order))"
    by (simp only: names)
  have l: "length report = 2 * length combos"
    using length_target_keys [of "map combo_name order"] keys len
    by (metis length_map)
  have l8: "length report = 8" using l by (simp add: combos_def)
  have d: "distinct (map fst report)"
    unfolding keys using dn by (rule distinct_target_keys)
  have s: "set (map fst report) =
      {(s, d, c). (s = ''DuckDuckGo'' \<or> s = ''Nextcloud'') \<and> (d = ''desktop'' \<or> d = ''mobile'') \<and>
         (c = ''oci'' \<or> c = ''kab'')}"
    unfolding keys set_target_keys sn set_combo_names by auto
  have v: "map_of report (site_n, dev_n, code) = res code"
    if "(sk, dk) \<in> set combos \<and> job lc sess sk dk loose = Inr (sk', dk', site_n, dev_n, res) \<and>
        (code = ''oci'' \<or> code = ''kab'')" for sk dk sk' dk' site_n dev_n res code
  proof -
    let ?jr = "(sk', dk', site_n, dev_n, res)"
    from that so have "(sk, dk) \<in> set order" and j: "job lc sess sk dk loose = Inr ?jr"
      and code: "code = ''oci'' \<or> code = ''kab''" by simp_all
    then have "Inr ?jr \<in> set (map (\<lambda>(sk, dk). job lc sess sk dk loose) order)"
      by force
    then have in_jrs: "?jr \<in> set jrs" unfolding futs by auto
    from job_result_good(2) [OF j] obtain v1 v2 where
      v1: "res ''oci'' = Some v1" and v2: "res ''kab'' = Some v2" by auto
    from code v1 v2 have "\<exists>v. res code = Some v" by blast
    then obtain v where v: "res code = Some v" ..
    from code v1 v2 v have "((site_n, dev_n, code), v) \<in> set (job_entries ?jr)"
      by (auto simp: job_entries_def)
    with in_jrs have "((site_n, dev_n, code), v) \<in> set report"
      unfolding report by auto
    with d have "map_of report (site_n, dev_n, code) = Some v" by (rule map_of_is_SomeI)
    with v show ?thesis by simp
  qed
  have c1: "coll = map fst (filter (\<lambda>e. fst (snd e) = ''collision'') report)"
  proof -
    have "(\<lambda>(k, l, g). l = ''collision'') = (\<lambda>e :: (string \<times> string \<times> string) \<times> string \<times> string. fst (snd e) = ''collision'')"
      by (rule ext) (simp add: case_prod_beta)
    then show ?thesis unfolding coll collisions_def by (rule arg_cong)
  qed
  have c2: "set coll = {k. \<exists>g. (k, ''collision'', g) \<in> set report}"
    unfolding coll by (rule set_collisions)
  from l l8 d s v c1 c2 show ?thesis by blast
qed

theorem report_two_entries_per_target_witness:
  "mset batch_order = mset combos \<and>
   report_mode demo_lc calm_sess False batch_order =
     Inr (batch_report, [(''Nextcloud'', ''desktop'', ''oci''), (''Nextcloud'', ''mobile'', ''oci'')]) \<and>
   length batch_report = 2 * length combos \<and> length batch_report = 8 \<and>
   distinct (map fst batch_report) \<and>
   job demo_lc calm_sess ''2'' ''2'' False =
     Inr (''2'', ''2'', ''Nextcloud'', ''mobile'', variant_results) \<and>
   map_of batch_report (''Nextcloud'', ''mobile'', ''kab'') = variant_results ''kab'' \<and>
   [(''Nextcloud'', ''desktop'', ''oci''), (''Nextcloud'', ''mobile'', ''oci'')] =
     map fst (filter (\<lambda>e. fst (snd e) = ''collision'') batch_report)"
proof -
  have m: "mset batch_order = mset combos"
    by (simp add: batch_order_def combos_def)
  note t = report_two_entries_per_target [OF m calm_report_mode]
  from t have l: "length batch_report = 2 * length combos" and l8: "length batch_report = 8"
    and d: "distinct (map fst batch_report)" by blast+
  from t have v: "\<forall>sk dk sk' dk' site_n dev_n res code.
        (sk, dk) \<in> set combos \<and>
        job demo_lc calm_sess sk dk False = Inr (sk', dk', site_n, dev_n, res) \<and>
        (code = ''oci'' \<or> code = ''kab'') \<longrightarrow>
        map_of batch_report (site_n, dev_n, code) = res code" by blast
  have "(''2'', ''2'') \<in> set combos" by (simp add: combos_def)
  with v calm_job(4) [of False]
  have k: "map_of batch_report (''Nextcloud'', ''mobile'', ''kab'') = variant_results ''kab''"
    by blast
  from t have c: "[(''Nextcloud'', ''desktop'', ''oci''), (''Nextcloud'', ''mobile'', ''oci'')] =
     map fst (filter (\<lambda>e. fst (snd e) = ''collision'') batch_report)" by blast
  from m l l8 d k c show ?thesis by (simp only: calm_report_mode calm_job simp_thms)
qed

section \<open>A job that raises\<close>

lemma add_codes_good:
  assumes "res ''oci'' = Some v1" and "res ''kab'' = Some v2"
  shows "\<exists>report'. add_codes site_n dev_n res [''oci'', ''kab''] report = Inr report'"
  by (simp add: assms)

lemma collect_reraises:
  assumes "\<And>f. f \<in> set pre \<Longrightarrow> \<exists>sk dk site_n dev_n res v1 v2.
      f = Inr (sk, dk, site_n, dev_n, res) \<and> res ''oci'' = Some v1 \<and> res ''kab'' = Some v2"
  shows "collect (pre @ Inl e # post) report0 = Inl e"
  using assms
proof (induction pre arbitrary: report0)
  case Nil
  show ?case by simp
next
  case (Cons f pre)
  from Cons.prems [of f] obtain sk dk site_n dev_n res v1 v2 where
    f: "f = Inr (sk, dk, site_n, dev_n, res)" and v: "res ''oci'' = Some v1" "res ''kab'' = Some v2"
    by auto
  from add_codes_good [OF v] obtain report' where
    a: "add_codes site_n dev_n res [''oci'', ''kab''] report0 = Inr report'" ..
  have "collect ((f # pre) @ Inl e # post) report0 = collect (pre @ Inl e # post) report'"
    by (simp only: f append_Cons collect.simps sum.case prod.case a)
  also have "\<dots> = Inl e"
    by (rule Cons.IH) (use Cons.prems in simp)
  finally show ?case .
qed

lemma collect_completes:
  assumes "\<And>f. f \<in> set futs \<Longrightarrow> \<exists>sk dk site_n dev_n res v1 v2.
      f = Inr (sk, dk, site_n, dev_n, res) \<and> res ''oci'' = Some v1 \<and> res ''kab'' = Some v2"
  shows "\<exists>report. collect futs report0 = Inr report"
  using assms
proof (induction futs arbitrary: report0)
  case Nil
  show ?case by simp
next
  case (Cons f futs)
  from Cons.prems [of f] obtain sk dk site_n dev_n res v1 v2 where
    f: "f = Inr (sk, dk, site_n, dev_n, res)" and v: "res ''oci'' = Some v1" "res ''kab'' = Some v2"
    by auto
  from add_codes_good [OF v] obtain report' where
    a: "add_codes site_n dev_n res [''oci'', ''kab''] report0 = Inr report'" ..
  have "collect (f # futs) report0 = collect futs report'"
    by (simp only: f collect.simps sum.case prod.case a)
  moreover have "\<exists>report. collect futs report' = Inr report"
    by (rule Cons.IH) (use Cons.prems in simp)
  ultimately show ?case by simp
qed

lemma collect_Inl_split:
  "collect futs report0 = Inl e \<Longrightarrow>
   (\<And>jr. Inr jr \<in> set futs \<Longrightarrow> \<exists>sk dk site_n dev_n res v1 v2.
      jr = (sk, dk, site_n, dev_n, res) \<and> res ''oci'' = Some v1 \<and> res ''kab'' = Some v2) \<Longrightarrow>
   \<exists>pre post. futs = pre @ Inl e # post \<and> (\<forall>f\<in>set pre. \<exists>jr. f = Inr jr)"
proof (induction futs arbitrary: report0)
  case Nil
  then show ?case by simp
next
  case (Cons f futs)
  show ?case
  proof (cases f)
    case (Inl e')
    with Cons.prems(1) have "e' = e" by simp
    with Inl have "f # futs = [] @ Inl e # futs" by simp
    then show ?thesis by (metis empty_iff empty_set)
  next
    case (Inr jr)
    from Cons.prems(2) [of jr] Inr obtain sk dk site_n dev_n res v1 v2 where
      jr: "jr = (sk, dk, site_n, dev_n, res)" and v: "res ''oci'' = Some v1" "res ''kab'' = Some v2"
      by auto
    from add_codes_good [OF v] obtain report' where
      a: "add_codes site_n dev_n res [''oci'', ''kab''] report0 = Inr report'" ..
    have "collect (f # futs) report0 = collect futs report'"
      by (simp only: Inr jr collect.simps sum.case prod.case a)
    with Cons.prems(1) have "collect futs report' = Inl e" by simp
    from Cons.IH [OF this] Cons.prems(2) obtain pre post where
      "futs = pre @ Inl e # post" and "\<forall>f\<in>set pre. \<exists>jr. f = Inr jr" by auto
    with Inr jr have "f # futs = (f # pre) @ Inl e # post \<and> (\<forall>g\<in>set (f # pre). \<exists>jr. g = Inr jr)"
      by auto
    then show ?thesis by blast
  qed
qed


lemma futures_beta:
  "map (\<lambda>(sk, dk). job lc sess sk dk loose) order =
     map (\<lambda>c. job lc sess (fst c) (snd c) loose) order"
  by (simp add: case_prod_beta)

lemma report_mode_Inl_iff:
  "report_mode lc sess loose order = Inl e \<longleftrightarrow>
     collect (map (\<lambda>c. job lc sess (fst c) (snd c) loose) order) [] = Inl e"
  by (simp add: report_mode_def futures_beta split: sum.splits)

lemma report_mode_Inr_iff:
  "(\<exists>report coll. report_mode lc sess loose order = Inr (report, coll)) \<longleftrightarrow>
     (\<exists>report. collect (map (\<lambda>c. job lc sess (fst c) (snd c) loose) order) [] = Inr report)"
  by (simp add: report_mode_def futures_beta split: sum.splits)

text \<open>
  C2, as the code has it. \<^verbatim>\<open>fut.result()\<close> raises what the job raised and
  \<^verbatim>\<open>report_mode\<close> has no handler: a run ends with the exception \<open>e\<close> exactly when
  \<open>e\<close> is the exception of the first future that raises, in the order in which
  \<^verbatim>\<open>as_completed\<close> yields the futures, every future yielded earlier having returned;
  then there is no report and no list of collisions, for any target. A report exists
  exactly when every job returns.
\<close>

theorem report_mode_reraises_first_failure:
  "(report_mode lc sess loose order = Inl e \<longleftrightarrow>
      (\<exists>earlier c rest. order = earlier @ c # rest \<and>
         (\<forall>c'\<in>set earlier. \<exists>jr. job lc sess (fst c') (snd c') loose = Inr jr) \<and>
         job lc sess (fst c) (snd c) loose = Inl e)) \<and>
   ((\<exists>report coll. report_mode lc sess loose order = Inr (report, coll)) \<longleftrightarrow>
      (\<forall>c\<in>set order. \<exists>jr. job lc sess (fst c) (snd c) loose = Inr jr))"
proof (intro conjI iffI)
  let ?f = "\<lambda>c. job lc sess (fst c) (snd c) loose"
  have good: "\<exists>sk dk site_n dev_n res v1 v2.
      jr = (sk, dk, site_n, dev_n, res) \<and> res ''oci'' = Some v1 \<and> res ''kab'' = Some v2"
    if "Inr jr \<in> set (map ?f cs)" for jr cs
  proof -
    from that obtain c where "?f c = Inr jr" by auto
    then show ?thesis by (rule job_result_good(2))
  qed
  {
    assume "report_mode lc sess loose order = Inl e"
    then have "collect (map ?f order) [] = Inl e" by (simp only: report_mode_Inl_iff)
    from collect_Inl_split [OF this good [of _ order]] obtain pre post where
      split: "map ?f order = pre @ Inl e # post" and pre: "\<forall>f\<in>set pre. \<exists>jr. f = Inr jr"
      by blast
    from split obtain earlier tl where o: "order = earlier @ tl" and p: "pre = map ?f earlier"
      and t: "Inl e # post = map ?f tl" by (auto simp: map_eq_append_conv)
    from t obtain c rest where tl: "tl = c # rest" and c: "?f c = Inl e"
      by (auto simp: Cons_eq_map_conv)
    from pre p have "\<forall>c'\<in>set earlier. \<exists>jr. ?f c' = Inr jr" by auto
    with o tl c show "\<exists>earlier c rest. order = earlier @ c # rest \<and>
         (\<forall>c'\<in>set earlier. \<exists>jr. job lc sess (fst c') (snd c') loose = Inr jr) \<and>
         job lc sess (fst c) (snd c) loose = Inl e" by blast
  }
  {
    assume "\<exists>earlier c rest. order = earlier @ c # rest \<and>
         (\<forall>c'\<in>set earlier. \<exists>jr. job lc sess (fst c') (snd c') loose = Inr jr) \<and>
         job lc sess (fst c) (snd c) loose = Inl e"
    then obtain earlier c rest where o: "order = earlier @ c # rest"
      and fin: "\<forall>c'\<in>set earlier. \<exists>jr. ?f c' = Inr jr" and c: "?f c = Inl e" by blast
    have "collect (map ?f earlier @ Inl e # map ?f rest) [] = Inl e"
    proof (rule collect_reraises)
      fix f assume "f \<in> set (map ?f earlier)"
      then obtain c' where c': "c' \<in> set earlier" and f: "f = ?f c'" by auto
      from fin c' obtain jr where jr: "?f c' = Inr jr" by blast
      from job_result_good(2) [OF jr] f jr
      show "\<exists>sk dk site_n dev_n res v1 v2.
        f = Inr (sk, dk, site_n, dev_n, res) \<and> res ''oci'' = Some v1 \<and> res ''kab'' = Some v2"
        by auto
    qed
    with o c have "collect (map ?f order) [] = Inl e" by simp
    then show "report_mode lc sess loose order = Inl e" by (simp only: report_mode_Inl_iff)
  }
  {
    assume "\<exists>report coll. report_mode lc sess loose order = Inr (report, coll)"
    then obtain report where "collect (map ?f order) [] = Inr report"
      unfolding report_mode_Inr_iff ..
    from collect_Inr_map [OF this] obtain jrs where "map ?f order = map Inr jrs" ..
    then have "\<forall>f\<in>set (map ?f order). \<exists>jr. f = Inr jr" by auto
    then show "\<forall>c\<in>set order. \<exists>jr. job lc sess (fst c) (snd c) loose = Inr jr" by simp
  }
  {
    assume all: "\<forall>c\<in>set order. \<exists>jr. job lc sess (fst c) (snd c) loose = Inr jr"
    have "\<exists>report. collect (map ?f order) [] = Inr report"
    proof (rule collect_completes)
      fix f assume "f \<in> set (map ?f order)"
      then obtain c where c: "c \<in> set order" and f: "f = ?f c" by auto
      from all c obtain jr where jr: "?f c = Inr jr" by blast
      from job_result_good(2) [OF jr] f jr
      show "\<exists>sk dk site_n dev_n res v1 v2.
        f = Inr (sk, dk, site_n, dev_n, res) \<and> res ''oci'' = Some v1 \<and> res ''kab'' = Some v2"
        by auto
    qed
    then show "\<exists>report coll. report_mode lc sess loose order = Inr (report, coll)"
      by (simp only: report_mode_Inr_iff)
  }
qed

theorem report_mode_reraises_first_failure_witness:
  "crash_order = [(''1'', ''2'')] @ (''2'', ''2'') # [(''1'', ''1''), (''2'', ''1'')] \<and>
   job demo_lc demo_sess ''1'' ''2'' True =
     Inr (''1'', ''2'', ''DuckDuckGo'', ''mobile'', demo_results True) \<and>
   job demo_lc demo_sess ''2'' ''2'' True = Inl (OtherException ''boom'') \<and>
   report_mode demo_lc demo_sess True crash_order = Inl (OtherException ''boom'')"
proof -
  have o: "crash_order = [(''1'', ''2'')] @ (''2'', ''2'') # [(''1'', ''1''), (''2'', ''1'')]"
    by (simp add: crash_order_def)
  have fin: "\<forall>c'\<in>set [(''1'', ''2'')]. \<exists>jr. job demo_lc demo_sess (fst c') (snd c') True = Inr jr"
    by (simp add: demo_job)
  have c: "job demo_lc demo_sess (fst (''2'', ''2'')) (snd (''2'', ''2'')) True =
    Inl (OtherException ''boom'')"
    by (simp add: demo_job)
  from o fin c have "\<exists>earlier c rest. crash_order = earlier @ c # rest \<and>
      (\<forall>c'\<in>set earlier. \<exists>jr. job demo_lc demo_sess (fst c') (snd c') True = Inr jr) \<and>
      job demo_lc demo_sess (fst c) (snd c) True = Inl (OtherException ''boom'')"
    by blast
  with report_mode_reraises_first_failure
    [of demo_lc demo_sess True crash_order "OtherException ''boom''"]
  have "report_mode demo_lc demo_sess True crash_order = Inl (OtherException ''boom'')"
    by blast
  with o show ?thesis by (simp only: demo_job simp_thms)
qed

text \<open>
  C2, as the claim states it, fails: on the first server the jobs of the two
  DuckDuckGo targets return their results, the job of a Nextcloud target raises, and
  the run that yields the futures in the order of submission ends with that
  exception instead of a report that holds the entries of the DuckDuckGo targets.
\<close>

theorem failed_target_aborts_batch:
  "job demo_lc demo_sess ''1'' ''1'' False =
     Inr (''1'', ''1'', ''DuckDuckGo'', ''desktop'', demo_results False) \<and>
   job demo_lc demo_sess ''1'' ''2'' False =
     Inr (''1'', ''2'', ''DuckDuckGo'', ''mobile'', demo_results False) \<and>
   job demo_lc demo_sess ''2'' ''1'' False = Inl (OtherException ''boom'') \<and>
   report_mode demo_lc demo_sess False combos = Inl (OtherException ''boom'')"
  by (simp only: demo_job crash_report_mode simp_thms)

section \<open>The patterns of \<^verbatim>\<open>locale_used\<close>, characterised\<close>

lemma takeWhile_run:
  "takeWhile P s = t \<longleftrightarrow>
     (\<exists>rest. s = t @ rest \<and> list_all P t \<and> (rest = [] \<or> \<not> P (hd rest)))"
proof
  assume "takeWhile P s = t"
  then have t: "t = takeWhile P s" by simp
  have "s = t @ dropWhile P s" by (simp add: t)
  moreover have "list_all P t" unfolding t list_all_iff by (auto dest: set_takeWhileD)
  moreover have "dropWhile P s = [] \<or> \<not> P (hd (dropWhile P s))"
    by (metis hd_dropWhile)
  ultimately show "\<exists>rest. s = t @ rest \<and> list_all P t \<and> (rest = [] \<or> \<not> P (hd rest))"
    by blast
next
  assume "\<exists>rest. s = t @ rest \<and> list_all P t \<and> (rest = [] \<or> \<not> P (hd rest))"
  then obtain rest where s: "s = t @ rest" and t: "list_all P t"
    and r: "rest = [] \<or> \<not> P (hd rest)" by blast
  from r have "takeWhile P rest = []" by (cases rest) auto
  with t show "takeWhile P s = t"
    unfolding s by (simp add: list_all_iff)
qed

lemma match_tag_iff: "match_tag s = Some t \<longleftrightarrow> tag_run t s"
proof -
  have "match_tag s = Some t \<longleftrightarrow> t \<noteq> [] \<and> takeWhile tag_char s = t"
    by (auto simp: match_tag_def Let_def)
  also have "\<dots> \<longleftrightarrow> tag_run t s"
    unfolding takeWhile_run tag_run_def by blast
  finally show ?thesis .
qed

lemma tag_run_unique: "tag_run t s \<Longrightarrow> tag_run t' s \<Longrightarrow> t' = t"
  by (metis match_tag_iff option.inject)

lemma take_is_prefix: "length xs = n \<Longrightarrow> take n s = xs \<longleftrightarrow> (\<exists>s'. s = xs @ s')"
  by (metis append_eq_conv_conj append_take_drop_id)

lemma word_char_l: "word_char CHR ''l''"
  by (simp add: word_char_def)

lemma match_lang_iff:
  "match_lang (Some p) s = Some t \<longleftrightarrow>
     \<not> word_char p \<and>
     (\<exists>q after. s = ''lang='' @ q # after \<and> (q = CHR 0x22 \<or> q = CHR 0x27) \<and> tag_run t after)"
proof (cases "take 5 s = ''lang=''")
  case True
  with take_is_prefix [of "''lang=''" 5 s] obtain s' where s: "s = ''lang='' @ s'" by auto
  have b: "word_boundary (Some p) (CHR ''l'' # x) \<longleftrightarrow> \<not> word_char p" for x
    by (simp add: word_boundary_def word_char_l)
  show ?thesis
  proof (cases s')
    case Nil
    then show ?thesis by (simp add: s match_lang_def)
  next
    case (Cons q after)
    then show ?thesis
      by (auto simp: s match_lang_def b match_tag_iff)
  qed
next
  case False
  with take_is_prefix [of "''lang=''" 5 s] have "\<And>s'. s \<noteq> ''lang='' @ s'" by auto
  then have "\<And>q after. s \<noteq> ''lang='' @ q # after" by blast
  with False show ?thesis by (simp add: match_lang_def)
qed

lemma search_html_first_match: "search_html s = first_match match_html s"
  by (induction s) (simp_all split: option.splits)

lemma search_cookie_first_match: "search_cookie s = first_match match_cookie s"
  by (induction s) (simp_all split: option.splits)

lemma first_match_head: "f s = Some t \<Longrightarrow> first_match f s = Some t"
  by (cases s) simp_all

lemma first_match_sound:
  "first_match f s = Some t \<Longrightarrow>
   \<exists>pre s'. s = pre @ s' \<and> f s' = Some t \<and>
     (\<forall>pre' s''. s = pre' @ s'' \<and> f s'' \<noteq> None \<longrightarrow> length pre \<le> length pre')"
proof (induction s)
  case Nil
  then have "f [] = Some t" by simp
  then have "[] = [] @ [] \<and> f [] = Some t \<and>
     (\<forall>pre' s''. [] = pre' @ s'' \<and> f s'' \<noteq> None \<longrightarrow> length ([] :: string) \<le> length pre')"
    by simp
  then show ?case by (intro exI)
next
  case (Cons c cs)
  show ?case
  proof (cases "f (c # cs)")
    case (Some t')
    with Cons.prems have "c # cs = [] @ (c # cs) \<and> f (c # cs) = Some t \<and>
     (\<forall>pre' s''. c # cs = pre' @ s'' \<and> f s'' \<noteq> None \<longrightarrow> length ([] :: string) \<le> length pre')"
      by simp
    then show ?thesis by (intro exI)
  next
    case None
    with Cons.prems have "first_match f cs = Some t" by simp
    from Cons.IH [OF this] obtain pre s' where cs: "cs = pre @ s'" and f: "f s' = Some t"
      and least: "\<forall>pre' s''. cs = pre' @ s'' \<and> f s'' \<noteq> None \<longrightarrow> length pre \<le> length pre'"
      by (elim exE conjE)
    have l: "length (c # pre) \<le> length pre'" if "c # cs = pre' @ s'' \<and> f s'' \<noteq> None"
      for pre' s''
    proof (cases pre')
      case Nil
      with that have "f (c # cs) \<noteq> None" by simp
      with None show ?thesis by simp
    next
      case (Cons c' pre1)
      with that have "cs = pre1 @ s'' \<and> f s'' \<noteq> None" by simp
      with least have "length pre \<le> length pre1" by (elim allE impE)
      with Cons show ?thesis by simp
    qed
    from cs have "c # cs = (c # pre) @ s'" by simp
    with f l have "c # cs = (c # pre) @ s' \<and> f s' = Some t \<and>
     (\<forall>pre' s''. c # cs = pre' @ s'' \<and> f s'' \<noteq> None \<longrightarrow> length (c # pre) \<le> length pre')"
      by (intro conjI allI impI)
    then show ?thesis by (intro exI)
  qed
qed

lemma first_match_complete:
  "f s' = Some t \<Longrightarrow>
   (\<And>pre' s''. pre @ s' = pre' @ s'' \<Longrightarrow> f s'' \<noteq> None \<Longrightarrow> length pre \<le> length pre') \<Longrightarrow>
   first_match f (pre @ s') = Some t"
proof (induction pre)
  case Nil
  then show ?case by (simp add: first_match_head)
next
  case (Cons c pre)
  have "f ((c # pre) @ s') = None"
  proof (rule ccontr)
    assume "f ((c # pre) @ s') \<noteq> None"
    with Cons.prems(2) [of "[]" "(c # pre) @ s'"] show False by simp
  qed
  then have "first_match f ((c # pre) @ s') = first_match f (pre @ s')" by simp
  also have "\<dots> = Some t"
  proof (rule Cons.IH [OF Cons.prems(1)])
    fix pre' s'' assume "pre @ s' = pre' @ s''" and "f s'' \<noteq> None"
    with Cons.prems(2) [of "c # pre'" s''] show "length pre \<le> length pre'" by simp
  qed
  finally show ?case .
qed

lemma first_match_exists:
  "f s' \<noteq> None \<Longrightarrow> first_match f (pre @ s') \<noteq> None"
proof (induction pre)
  case Nil
  then show ?case by (cases s') auto
next
  case (Cons c pre)
  then show ?case by (auto split: option.splits)
qed

lemma star_step:
  "match_star_lang prev (c # cs) =
     (if c = CHR ''>'' then match_lang prev (c # cs)
      else case match_star_lang (Some c) cs of
             Some t \<Rightarrow> Some t
           | None \<Rightarrow> match_lang prev (c # cs))"
  by simp

lemma star_sound:
  "match_star_lang (Some p) s = Some t \<Longrightarrow>
   \<exists>mid s'. s = mid @ s' \<and> CHR ''>'' \<notin> set mid \<and>
     match_lang (Some (last (p # mid))) s' = Some t"
proof (induction s arbitrary: p)
  case Nil
  then have "match_lang (Some p) [] = Some t" by simp
  then have "[] = [] @ [] \<and> CHR ''>'' \<notin> set [] \<and> match_lang (Some (last (p # []))) [] = Some t"
    by simp
  then show ?case by (intro exI)
next
  case (Cons c cs)
  have here: ?case if "match_lang (Some p) (c # cs) = Some t"
  proof -
    from that have "c # cs = [] @ (c # cs) \<and> CHR ''>'' \<notin> set [] \<and>
      match_lang (Some (last (p # []))) (c # cs) = Some t" by simp
    then show ?thesis by (intro exI)
  qed
  show ?case
  proof (cases "c = CHR ''>''")
    case True
    with Cons.prems have "match_lang (Some p) (c # cs) = Some t"
      by (simp add: star_step del: match_star_lang.simps)
    then show ?thesis by (rule here)
  next
    case False
    show ?thesis
    proof (cases "match_star_lang (Some c) cs")
      case None
      with Cons.prems False have "match_lang (Some p) (c # cs) = Some t"
        by (simp add: star_step del: match_star_lang.simps)
      then show ?thesis by (rule here)
    next
      case (Some t')
      with Cons.prems False have "t' = t"
        by (simp add: star_step del: match_star_lang.simps)
      with Some have "match_star_lang (Some c) cs = Some t" by simp
      from Cons.IH [OF this] obtain mid s' where cs: "cs = mid @ s'"
        and m: "CHR ''>'' \<notin> set mid"
        and l: "match_lang (Some (last (c # mid))) s' = Some t" by (elim exE conjE)
      from False have "CHR ''>'' \<noteq> c" by (rule not_sym)
      with cs m l have "c # cs = (c # mid) @ s' \<and> CHR ''>'' \<notin> set (c # mid) \<and>
        match_lang (Some (last (p # c # mid))) s' = Some t" by simp
      then show ?thesis by (intro exI)
    qed
  qed
qed

lemma star_complete:
  "CHR ''>'' \<notin> set mid \<Longrightarrow> match_lang (Some (last (p # mid))) s' = Some t \<Longrightarrow>
   match_star_lang (Some p) (mid @ s') \<noteq> None"
proof (induction mid arbitrary: p)
  case Nil
  then have l: "match_lang (Some p) s' = Some t" by simp
  show ?case
  proof (cases s')
    case Nil
    with l show ?thesis by simp
  next
    case (Cons c cs)
    show ?thesis
    proof (cases "c = CHR ''>''")
      case True
      with l Cons show ?thesis by (simp add: star_step del: match_star_lang.simps)
    next
      case False
      with l Cons show ?thesis
        by (cases "match_star_lang (Some c) cs")
           (simp_all add: star_step del: match_star_lang.simps)
    qed
  qed
next
  case (Cons m mid)
  from Cons.prems(1) have m: "m \<noteq> CHR ''>''" and mid: "CHR ''>'' \<notin> set mid" by auto
  from Cons.prems(2) have "match_lang (Some (last (m # mid))) s' = Some t" by simp
  from Cons.IH [OF mid this] obtain t' where "match_star_lang (Some m) (mid @ s') = Some t'"
    by auto
  with m show ?case by (simp add: star_step del: match_star_lang.simps)
qed

lemma star_greedy:
  "match_star_lang (Some p) s = Some t \<Longrightarrow>
   \<exists>mid s'. s = mid @ s' \<and> CHR ''>'' \<notin> set mid \<and>
     match_lang (Some (last (p # mid))) s' = Some t \<and>
     (\<forall>mid' s''. s = mid' @ s'' \<and> CHR ''>'' \<notin> set mid' \<and>
        match_lang (Some (last (p # mid'))) s'' \<noteq> None \<longrightarrow> length mid' \<le> length mid)"
proof (induction s arbitrary: p)
  case Nil
  then have c: "match_lang (Some (last (p # []))) [] = Some t" by simp
  have a: "[] = [] @ ([] :: string)" and b: "CHR ''>'' \<notin> set []" by simp_all
  have all: "\<forall>mid' s''. [] = mid' @ s'' \<and> CHR ''>'' \<notin> set mid' \<and>
        match_lang (Some (last (p # mid'))) s'' \<noteq> None \<longrightarrow> length mid' \<le> length ([] :: string)"
    by simp
  show ?case by (intro exI conjI) (rule a, rule b, rule c, rule all)
next
  case (Cons c cs)
  have here: ?case
    if l: "match_lang (Some p) (c # cs) = Some t"
      and none: "c = CHR ''>'' \<or> match_star_lang (Some c) cs = None"
  proof -
    have "length mid' \<le> length ([] :: string)"
      if d: "c # cs = mid' @ s'' \<and> CHR ''>'' \<notin> set mid' \<and>
        match_lang (Some (last (p # mid'))) s'' \<noteq> None" for mid' s''
    proof (cases mid')
      case Nil
      then show ?thesis by simp
    next
      case (Cons c' m1)
      with d have c': "c' = c" and cs: "cs = m1 @ s''" and gt: "CHR ''>'' \<notin> set (c # m1)"
        and ml: "match_lang (Some (last (c # m1))) s'' \<noteq> None" by auto
      from gt have ne: "c \<noteq> CHR ''>''" and gt1: "CHR ''>'' \<notin> set m1" by auto
      from ml obtain t' where "match_lang (Some (last (c # m1))) s'' = Some t'" by blast
      from star_complete [OF gt1 this] have "match_star_lang (Some c) cs \<noteq> None"
        unfolding cs .
      with none ne show ?thesis by blast
    qed
    then have all: "\<forall>mid' s''. c # cs = mid' @ s'' \<and> CHR ''>'' \<notin> set mid' \<and>
        match_lang (Some (last (p # mid'))) s'' \<noteq> None \<longrightarrow> length mid' \<le> length ([] :: string)"
      by (intro allI impI)
    have a: "c # cs = [] @ (c # cs)" and b: "CHR ''>'' \<notin> set []" by simp_all
    from l have c: "match_lang (Some (last (p # []))) (c # cs) = Some t" by simp
    show ?thesis by (intro exI conjI) (rule a, rule b, rule c, rule all)
  qed
  show ?case
  proof (cases "c = CHR ''>''")
    case True
    with Cons.prems have "match_lang (Some p) (c # cs) = Some t"
      by (simp add: star_step del: match_star_lang.simps)
    then show ?thesis using True by (intro here disjI1)
  next
    case False
    show ?thesis
    proof (cases "match_star_lang (Some c) cs")
      case None
      with Cons.prems False have "match_lang (Some p) (c # cs) = Some t"
        by (simp add: star_step del: match_star_lang.simps)
      then show ?thesis using None by (intro here disjI2)
    next
      case (Some t')
      with Cons.prems False have "t' = t"
        by (simp add: star_step del: match_star_lang.simps)
      with Some have "match_star_lang (Some c) cs = Some t" by simp
      from Cons.IH [OF this] obtain mid s' where cs: "cs = mid @ s'"
        and m: "CHR ''>'' \<notin> set mid"
        and l: "match_lang (Some (last (c # mid))) s' = Some t"
        and greatest: "\<forall>mid' s''. cs = mid' @ s'' \<and> CHR ''>'' \<notin> set mid' \<and>
          match_lang (Some (last (c # mid'))) s'' \<noteq> None \<longrightarrow> length mid' \<le> length mid"
        by (elim exE conjE)
      have g: "length mid' \<le> length (c # mid)"
        if d: "c # cs = mid' @ s'' \<and> CHR ''>'' \<notin> set mid' \<and>
          match_lang (Some (last (p # mid'))) s'' \<noteq> None" for mid' s''
      proof (cases mid')
        case Nil
        then show ?thesis by simp
      next
        case (Cons c' m1)
        with d have "cs = m1 @ s'' \<and> CHR ''>'' \<notin> set m1 \<and>
          match_lang (Some (last (c # m1))) s'' \<noteq> None" by auto
        then have "length m1 \<le> length mid" by (rule greatest [rule_format])
        with Cons show ?thesis by simp
      qed
      from False have ne: "CHR ''>'' \<noteq> c" by (rule not_sym)
      from g have all: "\<forall>mid' s''. c # cs = mid' @ s'' \<and> CHR ''>'' \<notin> set mid' \<and>
          match_lang (Some (last (p # mid'))) s'' \<noteq> None \<longrightarrow> length mid' \<le> length (c # mid)"
        by (intro allI impI)
      from cs have a: "c # cs = (c # mid) @ s'" by simp
      from m ne have b: "CHR ''>'' \<notin> set (c # mid)" by simp
      from l have c: "match_lang (Some (last (p # c # mid))) s' = Some t" by simp
      show ?thesis by (intro exI conjI) (rule a, rule b, rule c, rule all)
    qed
  qed
qed

subsection \<open>The body pattern selects one marker\<close>

lemma html_marker_at_shift:
  "html_marker_at (pre @ s') pre mid t \<longleftrightarrow> html_marker_at s' [] mid t"
  by (simp add: html_marker_at_def)

lemma html_marker_at_split:
  "html_marker_at s pre mid t \<Longrightarrow> \<exists>s'. s = pre @ s' \<and> html_marker_at s' [] mid t"
proof -
  assume m: "html_marker_at s pre mid t"
  then obtain s' where s: "s = pre @ s'" unfolding html_marker_at_def by blast
  with m have "html_marker_at s' [] mid t" by (simp only: html_marker_at_shift)
  with s show ?thesis by blast
qed

lemma html_marker_at_prefix:
  assumes "html_marker_at s [] mid t"
  shows "\<exists>s0. s = ''<html'' @ s0"
  using assms unfolding html_marker_at_def by auto

lemma lang_marker_iff:
  "html_marker_at (''<html'' @ s0) [] mid t \<longleftrightarrow>
     (\<exists>s'. s0 = mid @ s' \<and> CHR ''>'' \<notin> set mid \<and>
        match_lang (Some (last (CHR ''l'' # mid))) s' = Some t)"
proof
  assume "html_marker_at (''<html'' @ s0) [] mid t"
  then obtain q after where s: "''<html'' @ s0 = [] @ ''<html'' @ mid @ ''lang='' @ q # after"
    and gt: "CHR ''>'' \<notin> set mid" and ne: "mid \<noteq> []" and nw: "\<not> word_char (last mid)"
    and q: "q = CHR 0x22 \<or> q = CHR 0x27" and run: "tag_run t after"
    unfolding html_marker_at_def by (elim exE conjE)
  from s have s0: "s0 = mid @ ''lang='' @ q # after" by simp
  from ne nw have nw': "\<not> word_char (last (CHR ''l'' # mid))" by simp
  with q run have "\<not> word_char (last (CHR ''l'' # mid)) \<and>
    (\<exists>q' after'. ''lang='' @ q # after = ''lang='' @ q' # after' \<and>
       (q' = CHR 0x22 \<or> q' = CHR 0x27) \<and> tag_run t after')" by blast
  then have "match_lang (Some (last (CHR ''l'' # mid))) (''lang='' @ q # after) = Some t"
    by (rule iffD2 [OF match_lang_iff])
  with s0 gt show "\<exists>s'. s0 = mid @ s' \<and> CHR ''>'' \<notin> set mid \<and>
        match_lang (Some (last (CHR ''l'' # mid))) s' = Some t" by blast
next
  assume "\<exists>s'. s0 = mid @ s' \<and> CHR ''>'' \<notin> set mid \<and>
        match_lang (Some (last (CHR ''l'' # mid))) s' = Some t"
  then obtain s' where s0: "s0 = mid @ s'" and gt: "CHR ''>'' \<notin> set mid"
    and l: "match_lang (Some (last (CHR ''l'' # mid))) s' = Some t" by (elim exE conjE)
  from l have both: "\<not> word_char (last (CHR ''l'' # mid)) \<and>
    (\<exists>q after. s' = ''lang='' @ q # after \<and> (q = CHR 0x22 \<or> q = CHR 0x27) \<and> tag_run t after)"
    by (rule iffD1 [OF match_lang_iff])
  then have nw: "\<not> word_char (last (CHR ''l'' # mid))" by (rule conjunct1)
  from both obtain q after where s': "s' = ''lang='' @ q # after"
    and q: "q = CHR 0x22 \<or> q = CHR 0x27" and run: "tag_run t after" by (elim exE conjE)
  from nw word_char_l have ne: "mid \<noteq> []" by (cases mid) auto
  with nw have nw': "\<not> word_char (last mid)" by simp
  have "''<html'' @ s0 = [] @ ''<html'' @ mid @ ''lang='' @ q # after" by (simp add: s0 s')
  with gt ne nw' q run show "html_marker_at (''<html'' @ s0) [] mid t"
    unfolding html_marker_at_def by blast
qed

lemma match_html_star:
  "match_html (''<html'' @ s0) = match_star_lang (Some CHR ''l'') s0"
  by (simp add: match_html_def)

lemma match_html_prefix:
  assumes "match_html s \<noteq> None"
  shows "\<exists>s0. s = ''<html'' @ s0"
proof -
  from assms have "take 5 s = ''<html''" by (simp add: match_html_def split: if_splits)
  with take_is_prefix [of "''<html''" 5 s] show ?thesis by auto
qed

lemma match_html_exists:
  assumes "html_marker_at s [] mid t"
  shows "match_html s \<noteq> None"
proof -
  from html_marker_at_prefix [OF assms] obtain s0 where s: "s = ''<html'' @ s0" ..
  from assms [unfolded s lang_marker_iff] obtain s' where s0: "s0 = mid @ s'"
    and gt: "CHR ''>'' \<notin> set mid"
    and l: "match_lang (Some (last (CHR ''l'' # mid))) s' = Some t" by (elim exE conjE)
  from star_complete [OF gt l] show ?thesis
    unfolding s match_html_star s0 .
qed

lemma match_html_greedy:
  assumes "match_html s = Some t"
  shows "\<exists>mid. html_marker_at s [] mid t \<and>
    (\<forall>mid' t'. html_marker_at s [] mid' t' \<longrightarrow> length mid' \<le> length mid)"
proof -
  from assms have "match_html s \<noteq> None" by simp
  from match_html_prefix [OF this] obtain s0 where s: "s = ''<html'' @ s0" ..
  from assms have "match_star_lang (Some CHR ''l'') s0 = Some t"
    unfolding s match_html_star .
  from star_greedy [OF this] obtain mid s' where s0: "s0 = mid @ s'"
    and gt: "CHR ''>'' \<notin> set mid"
    and l: "match_lang (Some (last (CHR ''l'' # mid))) s' = Some t"
    and greatest: "\<forall>mid' s''. s0 = mid' @ s'' \<and> CHR ''>'' \<notin> set mid' \<and>
        match_lang (Some (last (CHR ''l'' # mid'))) s'' \<noteq> None \<longrightarrow> length mid' \<le> length mid"
    by (elim exE conjE)
  from s0 gt l have at: "html_marker_at s [] mid t"
    unfolding s lang_marker_iff by blast
  have "length mid' \<le> length mid" if "html_marker_at s [] mid' t'" for mid' t'
  proof -
    from that [unfolded s lang_marker_iff] obtain s'' where "s0 = mid' @ s''"
      and "CHR ''>'' \<notin> set mid'"
      and "match_lang (Some (last (CHR ''l'' # mid'))) s'' = Some t'" by (elim exE conjE)
    then have "s0 = mid' @ s'' \<and> CHR ''>'' \<notin> set mid' \<and>
        match_lang (Some (last (CHR ''l'' # mid'))) s'' \<noteq> None" by simp
    then show ?thesis by (rule greatest [rule_format])
  qed
  with at show ?thesis by blast
qed

lemma match_html_iff:
  "match_html s = Some t \<longleftrightarrow>
     (\<exists>mid. html_marker_at s [] mid t \<and>
        (\<forall>mid' t'. html_marker_at s [] mid' t' \<longrightarrow> length mid' \<le> length mid))"
proof
  assume "match_html s = Some t"
  then show "\<exists>mid. html_marker_at s [] mid t \<and>
        (\<forall>mid' t'. html_marker_at s [] mid' t' \<longrightarrow> length mid' \<le> length mid)"
    by (rule match_html_greedy)
next
  assume "\<exists>mid. html_marker_at s [] mid t \<and>
        (\<forall>mid' t'. html_marker_at s [] mid' t' \<longrightarrow> length mid' \<le> length mid)"
  then obtain mid where at: "html_marker_at s [] mid t"
    and greatest: "\<forall>mid' t'. html_marker_at s [] mid' t' \<longrightarrow> length mid' \<le> length mid"
    by (elim exE conjE)
  from match_html_exists [OF at] obtain t0 where m: "match_html s = Some t0" by blast
  from match_html_greedy [OF m] obtain mid0 where at0: "html_marker_at s [] mid0 t0"
    and greatest0: "\<forall>mid' t'. html_marker_at s [] mid' t' \<longrightarrow> length mid' \<le> length mid0"
    by (elim exE conjE)
  from at have "length mid \<le> length mid0" by (rule greatest0 [rule_format])
  moreover from at0 have "length mid0 \<le> length mid" by (rule greatest [rule_format])
  ultimately have len: "length mid = length mid0" by simp
  from html_marker_at_prefix [OF at] obtain s0 where s: "s = ''<html'' @ s0" ..
  from at [unfolded s lang_marker_iff] obtain s' where s0: "s0 = mid @ s'"
    and l: "match_lang (Some (last (CHR ''l'' # mid))) s' = Some t" by (elim exE conjE)
  from at0 [unfolded s lang_marker_iff] obtain s0' where s0': "s0 = mid0 @ s0'"
    and l0: "match_lang (Some (last (CHR ''l'' # mid0))) s0' = Some t0" by (elim exE conjE)
  from s0 s0' len have "mid = mid0" and "s' = s0'" by simp_all
  with l l0 have "t0 = t" by simp
  with m show "match_html s = Some t" by simp
qed

lemma search_html_iff: "search_html s = Some t \<longleftrightarrow> html_selected s t"
proof
  assume "search_html s = Some t"
  then have "first_match match_html s = Some t" by (simp only: search_html_first_match)
  from first_match_sound [OF this] obtain pre s' where s: "s = pre @ s'"
    and m: "match_html s' = Some t"
    and least: "\<forall>pre' s''. s = pre' @ s'' \<and> match_html s'' \<noteq> None \<longrightarrow>
      length pre \<le> length pre'" by (elim exE conjE)
  from match_html_greedy [OF m] obtain mid where at': "html_marker_at s' [] mid t"
    and greatest: "\<forall>mid' t'. html_marker_at s' [] mid' t' \<longrightarrow> length mid' \<le> length mid"
    by (elim exE conjE)
  from at' have at: "html_marker_at s pre mid t" by (simp only: s html_marker_at_shift)
  have "length pre \<le> length pre' \<and> (length pre' = length pre \<longrightarrow> length mid' \<le> length mid)"
    if other: "html_marker_at s pre' mid' t'" for pre' mid' t'
  proof -
    from html_marker_at_split [OF other] obtain s'' where s'': "s = pre' @ s''"
      and at'': "html_marker_at s'' [] mid' t'" by (elim exE conjE)
    from at'' have "match_html s'' \<noteq> None" by (rule match_html_exists)
    with s'' have "s = pre' @ s'' \<and> match_html s'' \<noteq> None" by simp
    then have le: "length pre \<le> length pre'" by (rule least [rule_format])
    have "length mid' \<le> length mid" if "length pre' = length pre"
    proof -
      from s s'' that have "s'' = s'" by (metis append_eq_append_conv)
      with at'' have "html_marker_at s' [] mid' t'" by simp
      then show ?thesis by (rule greatest [rule_format])
    qed
    with le show ?thesis by blast
  qed
  with at show "html_selected s t" unfolding html_selected_def by blast
next
  assume "html_selected s t"
  then obtain pre mid where at: "html_marker_at s pre mid t"
    and ext: "\<forall>pre' mid' t'. html_marker_at s pre' mid' t' \<longrightarrow>
           length pre \<le> length pre' \<and> (length pre' = length pre \<longrightarrow> length mid' \<le> length mid)"
    unfolding html_selected_def by (elim exE conjE)
  from html_marker_at_split [OF at] obtain s' where s: "s = pre @ s'"
    and at': "html_marker_at s' [] mid t" by (elim exE conjE)
  have "length mid' \<le> length mid" if "html_marker_at s' [] mid' t'" for mid' t'
  proof -
    from that have "html_marker_at s pre mid' t'" by (simp only: s html_marker_at_shift)
    with ext show ?thesis by blast
  qed
  with at' have "\<exists>mid. html_marker_at s' [] mid t \<and>
        (\<forall>mid' t'. html_marker_at s' [] mid' t' \<longrightarrow> length mid' \<le> length mid)" by blast
  then have m: "match_html s' = Some t" by (rule iffD2 [OF match_html_iff])
  have "first_match match_html (pre @ s') = Some t"
  proof (rule first_match_complete [of match_html "s'" t pre, OF m])
    fix pre' s'' assume eq: "pre @ s' = pre' @ s''" and "match_html s'' \<noteq> None"
    then obtain t'' where "match_html s'' = Some t''" by blast
    from match_html_greedy [OF this] obtain mid'' where "html_marker_at s'' [] mid'' t''"
      by blast
    then have "html_marker_at (pre' @ s'') pre' mid'' t''" by (simp only: html_marker_at_shift)
    then have "html_marker_at s pre' mid'' t''" by (simp only: s eq)
    with ext show "length pre \<le> length pre'" by blast
  qed
  then show "search_html s = Some t" by (simp only: search_html_first_match s)
qed

lemma search_html_None_iff:
  "search_html s = None \<longleftrightarrow> (\<forall>pre mid t. \<not> html_marker_at s pre mid t)"
proof
  assume n: "search_html s = None"
  show "\<forall>pre mid t. \<not> html_marker_at s pre mid t"
  proof (intro allI notI)
    fix pre mid t assume "html_marker_at s pre mid t"
    from html_marker_at_split [OF this] obtain s' where s: "s = pre @ s'"
      and "html_marker_at s' [] mid t" by (elim exE conjE)
    then have "match_html s' \<noteq> None" by (intro match_html_exists)
    then have "first_match match_html (pre @ s') \<noteq> None" by (rule first_match_exists)
    with n show False by (simp only: search_html_first_match s)
  qed
next
  assume no: "\<forall>pre mid t. \<not> html_marker_at s pre mid t"
  show "search_html s = None"
  proof (cases "search_html s")
    case None
    then show ?thesis .
  next
    case (Some t)
    then have "html_selected s t" by (rule iffD1 [OF search_html_iff])
    with no show ?thesis unfolding html_selected_def by blast
  qed
qed

subsection \<open>The cookie pattern, and the order of the two searches\<close>

lemma cookie_marker_at_shift:
  "cookie_marker_at (pre @ s') pre t \<longleftrightarrow> cookie_marker_at s' [] t"
  by (simp add: cookie_marker_at_def)

lemma cookie_marker_at_split:
  "cookie_marker_at s pre t \<Longrightarrow> \<exists>s'. s = pre @ s' \<and> cookie_marker_at s' [] t"
proof -
  assume m: "cookie_marker_at s pre t"
  then obtain s' where s: "s = pre @ s'" unfolding cookie_marker_at_def by blast
  with m have "cookie_marker_at s' [] t" by (simp only: cookie_marker_at_shift)
  with s show ?thesis by blast
qed

lemma match_cookie_iff: "match_cookie s = Some t \<longleftrightarrow> cookie_marker_at s [] t"
proof (cases "take 5 s = ''ae=l=''")
  case True
  with take_is_prefix [of "''ae=l=''" 5 s] obtain s' where s: "s = ''ae=l='' @ s'" by auto
  show ?thesis by (simp add: s match_cookie_def cookie_marker_at_def match_tag_iff)
next
  case False
  with take_is_prefix [of "''ae=l=''" 5 s] have "\<And>s'. s \<noteq> ''ae=l='' @ s'" by auto
  with False show ?thesis by (simp add: match_cookie_def cookie_marker_at_def)
qed

lemma search_cookie_Nil: "search_cookie [] = None"
  by (simp add: match_cookie_def)


lemma locale_used_body:
  "search_html html = Some t \<Longrightarrow> locale_used html cookie = Some t"
  by (simp add: locale_used_def)

lemma locale_used_cookie:
  "search_html html = None \<Longrightarrow> locale_used html cookie = search_cookie cookie"
  by (simp add: locale_used_def split: option.splits)

lemmas regex_defs = locale_used_def match_html_def match_cookie_def match_lang_def match_tag_def
  word_boundary_def word_char_def tag_char_def

lemma search_cookie_iff: "search_cookie cookie = Some t \<longleftrightarrow> cookie_selected cookie t"
proof
  assume "search_cookie cookie = Some t"
  then have "first_match match_cookie cookie = Some t"
    by (simp only: search_cookie_first_match)
  from first_match_sound [OF this] obtain pre s' where c: "cookie = pre @ s'"
    and m: "match_cookie s' = Some t"
    and least: "\<forall>pre' s''. cookie = pre' @ s'' \<and> match_cookie s'' \<noteq> None \<longrightarrow>
      length pre \<le> length pre'" by (elim exE conjE)
  from m have at: "cookie_marker_at cookie pre t"
    by (simp only: c cookie_marker_at_shift match_cookie_iff)
  have "length pre \<le> length pre'" if "cookie_marker_at cookie pre' t'" for pre' t'
  proof -
    from cookie_marker_at_split [OF that] obtain s'' where c': "cookie = pre' @ s''"
      and m': "cookie_marker_at s'' [] t'" by (elim exE conjE)
    from m' have "match_cookie s'' = Some t'" by (rule iffD2 [OF match_cookie_iff])
    with c' have "cookie = pre' @ s'' \<and> match_cookie s'' \<noteq> None" by simp
    then show ?thesis by (rule least [rule_format])
  qed
  with at show "cookie_selected cookie t" unfolding cookie_selected_def by blast
next
  assume "cookie_selected cookie t"
  then obtain pre where at: "cookie_marker_at cookie pre t"
    and least: "\<forall>pre' t'. cookie_marker_at cookie pre' t' \<longrightarrow> length pre \<le> length pre'"
    unfolding cookie_selected_def by (elim exE conjE)
  from cookie_marker_at_split [OF at] obtain s' where c: "cookie = pre @ s'"
    and m: "cookie_marker_at s' [] t" by (elim exE conjE)
  from m have ms: "match_cookie s' = Some t" by (rule iffD2 [OF match_cookie_iff])
  have "first_match match_cookie (pre @ s') = Some t"
  proof (rule first_match_complete [of match_cookie "s'" t pre, OF ms])
    fix pre' s'' assume eq: "pre @ s' = pre' @ s''" and "match_cookie s'' \<noteq> None"
    then obtain t' where "match_cookie s'' = Some t'" by blast
    then have "cookie_marker_at s'' [] t'" by (rule iffD1 [OF match_cookie_iff])
    then have "cookie_marker_at (pre' @ s'') pre' t'" by (simp only: cookie_marker_at_shift)
    then have "cookie_marker_at cookie pre' t'" by (simp only: c eq)
    then show "length pre \<le> length pre'" by (rule least [rule_format])
  qed
  then show "search_cookie cookie = Some t" by (simp only: search_cookie_first_match c)
qed

lemma search_cookie_None_iff:
  "search_cookie s = None \<longleftrightarrow> (\<forall>pre t. \<not> cookie_marker_at s pre t)"
proof
  assume n: "search_cookie s = None"
  show "\<forall>pre t. \<not> cookie_marker_at s pre t"
  proof (intro allI notI)
    fix pre t assume "cookie_marker_at s pre t"
    from cookie_marker_at_split [OF this] obtain s' where s: "s = pre @ s'"
      and m: "cookie_marker_at s' [] t" by (elim exE conjE)
    from m have "match_cookie s' = Some t" by (rule iffD2 [OF match_cookie_iff])
    then have "match_cookie s' \<noteq> None" by simp
    then have "first_match match_cookie (pre @ s') \<noteq> None" by (rule first_match_exists)
    with n show False by (simp only: search_cookie_first_match s)
  qed
next
  assume no: "\<forall>pre t. \<not> cookie_marker_at s pre t"
  show "search_cookie s = None"
  proof (cases "search_cookie s")
    case None
    then show ?thesis .
  next
    case (Some t)
    then have "cookie_selected s t" by (rule iffD1 [OF search_cookie_iff])
    with no show ?thesis unfolding cookie_selected_def by blast
  qed
qed




section \<open>The body rule looks after \<^verbatim>\<open><html\<close> only\<close>




section \<open>The body before the cookie\<close>

text \<open>
  C7, as the code has it, with the marker of the body stated on the text. The tag of
  the selected marker of the body is the result whatever the cookie text holds, and a
  body that has a marker after \<^verbatim>\<open><html\<close> has a selected one. When the body has no
  such marker the result is the tag \<open>t\<close> exactly when \<open>t\<close> is the tag after the
  leftmost \<^verbatim>\<open>ae=l=\<close> of the cookie text that is followed by a letter or a hyphen;
  when the cookie text has none either, the result is \<^verbatim>\<open>None\<close>.
\<close>

theorem body_marker_wins_over_cookie:
  "(html_selected html t \<longrightarrow> locale_used html cookie = Some t) \<and>
   ((\<exists>pre mid t'. html_marker_at html pre mid t') \<longrightarrow>
      (\<exists>t'. html_selected html t' \<and> locale_used html cookie = Some t')) \<and>
   ((\<forall>pre mid t'. \<not> html_marker_at html pre mid t') \<longrightarrow>
      (locale_used html cookie = Some t \<longleftrightarrow> cookie_selected cookie t)) \<and>
   ((\<forall>pre mid t'. \<not> html_marker_at html pre mid t') \<and>
    (\<forall>pre t'. \<not> cookie_marker_at cookie pre t') \<longrightarrow> locale_used html cookie = None)"
proof (intro conjI impI)
  assume "html_selected html t"
  then have "search_html html = Some t" by (rule iffD2 [OF search_html_iff])
  then show "locale_used html cookie = Some t" by (rule locale_used_body)
next
  assume "\<exists>pre mid t'. html_marker_at html pre mid t'"
  then have "search_html html \<noteq> None" by (simp only: search_html_None_iff) blast
  then obtain t' where s: "search_html html = Some t'" by blast
  then have "html_selected html t'" by (rule iffD1 [OF search_html_iff])
  moreover from s have "locale_used html cookie = Some t'" by (rule locale_used_body)
  ultimately show "\<exists>t'. html_selected html t' \<and> locale_used html cookie = Some t'" by blast
next
  assume "\<forall>pre mid t'. \<not> html_marker_at html pre mid t'"
  then have "search_html html = None" by (rule iffD2 [OF search_html_None_iff])
  then have "locale_used html cookie = search_cookie cookie" by (rule locale_used_cookie)
  then show "locale_used html cookie = Some t \<longleftrightarrow> cookie_selected cookie t"
    by (simp only: search_cookie_iff)
next
  assume a: "(\<forall>pre mid t'. \<not> html_marker_at html pre mid t') \<and>
    (\<forall>pre t'. \<not> cookie_marker_at cookie pre t')"
  then have "search_html html = None" by (intro iffD2 [OF search_html_None_iff]) (rule conjunct1)
  then have "locale_used html cookie = search_cookie cookie" by (rule locale_used_cookie)
  moreover from a have "search_cookie cookie = None"
    by (intro iffD2 [OF search_cookie_None_iff]) (rule conjunct2)
  ultimately show "locale_used html cookie = None" by simp
qed

theorem body_marker_wins_over_cookie_witness:
  "html_marker_at ''<html lang=\"de\">'' [] '' '' ''de'' \<and>
   html_selected ''<html lang=\"de\">'' ''de'' \<and>
   locale_used ''<html lang=\"de\">'' ''ae=l=fr'' = Some ''de'' \<and>
   (\<forall>pre mid t'. \<not> html_marker_at ''<p>hello</p>'' pre mid t') \<and>
   cookie_marker_at ''p=1; ae=l=kac; Path=/'' ''p=1; '' ''kac'' \<and>
   cookie_selected ''p=1; ae=l=kac; Path=/'' ''kac'' \<and>
   locale_used ''<p>hello</p>'' ''p=1; ae=l=kac; Path=/'' = Some ''kac'' \<and>
   (\<forall>pre t'. \<not> cookie_marker_at [] pre t') \<and>
   locale_used ''<p>hello</p>'' [] = None"
proof -
  have m: "html_marker_at ''<html lang=\"de\">'' [] '' '' ''de''"
  proof -
    have "''<html lang=\"de\">'' = [] @ ''<html'' @ '' '' @ ''lang='' @ CHR 0x22 # ''de\">''"
      by simp
    moreover have "tag_run ''de'' ''de\">''"
      by (simp add: match_tag_iff [symmetric] match_tag_def tag_char_def)
    moreover have "\<not> word_char CHR '' ''" by (simp add: word_char_def)
    ultimately show ?thesis
      unfolding html_marker_at_def by (intro exI [of _ "CHR 0x22"] exI conjI) simp_all
  qed
  have "search_html ''<html lang=\"de\">'' = Some ''de''"
    by (simp add: regex_defs)
  then have sel: "html_selected ''<html lang=\"de\">'' ''de''" by (rule iffD1 [OF search_html_iff])
  with body_marker_wins_over_cookie [of "''<html lang=\"de\">''" "''de''" "''ae=l=fr''"]
  have 1: "locale_used ''<html lang=\"de\">'' ''ae=l=fr'' = Some ''de''" by blast
  have "search_html ''<p>hello</p>'' = None" by (simp add: regex_defs)
  then have none: "\<forall>pre mid t'. \<not> html_marker_at ''<p>hello</p>'' pre mid t'"
    by (rule iffD1 [OF search_html_None_iff])
  have cm: "cookie_marker_at ''p=1; ae=l=kac; Path=/'' ''p=1; '' ''kac''"
  proof -
    have "''p=1; ae=l=kac; Path=/'' = ''p=1; '' @ ''ae=l='' @ ''kac; Path=/''" by simp
    moreover have "tag_run ''kac'' ''kac; Path=/''"
      by (simp add: match_tag_iff [symmetric] match_tag_def tag_char_def)
    ultimately show ?thesis unfolding cookie_marker_at_def by blast
  qed
  have "search_cookie ''p=1; ae=l=kac; Path=/'' = Some ''kac''"
    by (simp add: regex_defs)
  then have cs: "cookie_selected ''p=1; ae=l=kac; Path=/'' ''kac''"
    by (rule iffD1 [OF search_cookie_iff])
  from body_marker_wins_over_cookie
    [of "''<p>hello</p>''" "''kac''" "''p=1; ae=l=kac; Path=/''"] none cs
  have 2: "locale_used ''<p>hello</p>'' ''p=1; ae=l=kac; Path=/'' = Some ''kac''" by blast
  have e: "\<forall>pre t'. \<not> cookie_marker_at [] pre t'"
    by (simp add: cookie_marker_at_def)
  from body_marker_wins_over_cookie [of "''<p>hello</p>''" "''x''" "[]"] none e
  have 3: "locale_used ''<p>hello</p>'' [] = None" by blast
  from m sel 1 none cm cs 2 e 3 show ?thesis by (intro conjI)
qed

text \<open>
  C7, as the claim states it ("a body containing a \<^verbatim>\<open>lang="de"\<close> marker together with
  a cookie containing \<^verbatim>\<open>ae=l=fr\<close> yields \<open>de\<close>"), fails: the body
  \<^verbatim>\<open><div lang="de">\<close> holds the marker, a plain search finds it, and with the cookie
  \<^verbatim>\<open>ae=l=fr\<close> the result is \<open>fr\<close>.
\<close>

theorem div_marker_loses_to_cookie:
  "spec_search_lang ''<div lang=\"de\">'' = Some ''de'' \<and>
   locale_used ''<div lang=\"de\">'' ''ae=l=fr'' = Some ''fr''"
  by (simp add: spec_match_lang_def regex_defs)

end
